theory Spec2Isabelle
  imports Main "HOL-Library.Word"
begin

section \<open>JavaScript strings and match arrays\<close>

text \<open>
  A JavaScript string is a sequence of 16-bit code units. The string primitives below do
  not look at the code units, so they are stated for lists over any element type; the
  runner fixes the element type to 16-bit words.
\<close>

type_synonym jschar = "16 word"
type_synonym jsstring = "jschar list"

text \<open>
  \<open>String.prototype.slice\<close>: an index is first made relative to the length (a negative
  index counts from the end) and clamped into \<open>[0, len]\<close>; the result is empty when the
  end does not lie after the start.
\<close>

definition rel_index :: "nat \<Rightarrow> int \<Rightarrow> nat" where
  "rel_index len i = (if i < 0 then nat (max (int len + i) 0) else min (nat i) len)"

definition str_slice :: "'c list \<Rightarrow> int \<Rightarrow> int \<Rightarrow> 'c list" where
  "str_slice s b e =
     (let from = rel_index (length s) b; to = rel_index (length s) e
      in take (to - from) (drop from s))"

definition str_slice_from :: "'c list \<Rightarrow> int \<Rightarrow> 'c list" where
  "str_slice_from s b = drop (rel_index (length s) b) s"

text \<open>
  \<open>String.prototype.lastIndexOf\<close> without a position: the greatest index at which the
  search string occurs, or \<open>-1\<close> when it does not occur.
\<close>

definition occurs_at :: "'c list \<Rightarrow> 'c list \<Rightarrow> nat \<Rightarrow> bool" where
  "occurs_at s t k = (take (length t) (drop k s) = t)"

fun lastIndexOf_upto :: "'c list \<Rightarrow> 'c list \<Rightarrow> nat \<Rightarrow> int" where
  "lastIndexOf_upto s t 0 = (if occurs_at s t 0 then 0 else - 1)"
| "lastIndexOf_upto s t (Suc k) =
     (if occurs_at s t (Suc k) then int (Suc k) else lastIndexOf_upto s t k)"

definition lastIndexOf :: "'c list \<Rightarrow> 'c list \<Rightarrow> int" where
  "lastIndexOf s t = lastIndexOf_upto s t (length s)"

text \<open>
  The array returned by \<open>RegExp.exec\<close>: index 0 holds the matched text, index \<open>i > 0\<close>
  the text of capturing group \<open>i\<close>, which is \<open>undefined\<close> (here \<open>None\<close>) when the group
  did not take part in the match. Reading past the end of the array gives \<open>undefined\<close>
  as well.
\<close>

datatype 'c rmatch = RMatch (matched: "'c list") (groups: "'c list option list")

fun match_at :: "'c rmatch \<Rightarrow> nat \<Rightarrow> 'c list option" where
  "match_at m 0 = Some (matched m)"
| "match_at m (Suc i) = (if i < length (groups m) then groups m ! i else None)"

text \<open>Truthiness of a value that is a string or \<open>undefined\<close>: a non-empty string.\<close>

fun truthy :: "'c list option \<Rightarrow> bool" where
  "truthy None = False"
| "truthy (Some s) = (s \<noteq> [])"

section \<open>The string handler\<close>

text \<open>
  \<open>stringHandler\<close> (lines 44 to 59). The call \<open>state.tr.insertText(insert, start, end)\<close>
  belongs to the host editor; it is the parameter \<open>insertText\<close>. The handler always
  returns a transaction, so its result is never \<open>None\<close>.
\<close>

definition stringHandler ::
  "('st \<Rightarrow> 'c list \<Rightarrow> int \<Rightarrow> int \<Rightarrow> 'tr) \<Rightarrow> 'c list \<Rightarrow>
     'st \<Rightarrow> 'c rmatch \<Rightarrow> int \<Rightarrow> int \<Rightarrow> 'tr option" where
  "stringHandler insertText string state match start end =
     (let insert = string in
      if truthy (match_at match 1) then
        (let m1 = the (match_at match 1);
             offset = lastIndexOf (matched match) m1;
             insert = insert @ str_slice_from (matched match) (offset + int (length m1));
             start = start + offset;
             cutOff = start - end
         in if cutOff > 0
            then Some (insertText state
                         (str_slice (matched match) (offset - cutOff) offset @ insert) end end)
            else Some (insertText state insert start end))
      else Some (insertText state insert start end))"

text \<open>A transaction request that only records the arguments given to \<open>insertText\<close>.\<close>

datatype ('st, 'c) edit = InsertText 'st "'c list" int int

text \<open>
  The substitution as the specification words it, for comparison with \<open>stringHandler\<close>:
  the group \<open>G\<close> is the first non-empty capturing group of the match.
\<close>

definition spec_group :: "'c rmatch \<Rightarrow> 'c list option" where
  "spec_group m = (case filter truthy (groups m) of [] \<Rightarrow> None | g # _ \<Rightarrow> g)"

definition spec_substitution ::
  "'c list \<Rightarrow> 'st \<Rightarrow> 'c rmatch \<Rightarrow> int \<Rightarrow> int \<Rightarrow> ('st, 'c) edit" where
  "spec_substitution R st m start end =
     (case spec_group m of
        None \<Rightarrow> InsertText st R start end
      | Some G \<Rightarrow>
          (let M = matched m;
               groupOffset = lastIndexOf M G;
               suffix = str_slice_from M (groupOffset + int (length G));
               insertText = R @ suffix;
               start' = start + groupOffset;
               cutOff = start' - end
           in if cutOff > 0
              then InsertText st (str_slice M (groupOffset - cutOff) groupOffset @ insertText)
                     end end
              else InsertText st insertText start' end))"

section \<open>Documents, transactions and the host editor\<close>

text \<open>
  Exceptions raised by the host's document and transaction classes; the model returns them
  as values.
\<close>

datatype host_error = RangeError | TransformError | TypeError

text \<open>
  Modelled from the spec: the parent block of a resolved position, as far as the runner
  reads it. \<open>code\<close> is the truthiness of \<open>type.spec.code\<close>; \<open>content\<close> lists, position
  by position, what the block holds: a code unit of text, or non-text content.
\<close>

datatype token = Chr jschar | NonText

record pnode =
  code :: bool
  content :: "token list"

text \<open>
  Modelled from the spec: \<open>textBetween(from, to, blockSeparator, leafText)\<close>, the text
  between two offsets of the block, with \<open>leafText\<close> substituted for non-text content.
  The runner passes \<open>null\<close> as block separator, so no separator is ever added.
\<close>

fun render :: "jsstring \<Rightarrow> token \<Rightarrow> jsstring" where
  "render leafText (Chr c) = [c]"
| "render leafText NonText = leafText"

definition textBetween :: "pnode \<Rightarrow> int \<Rightarrow> int \<Rightarrow> jsstring \<Rightarrow> jsstring" where
  "textBetween node from to leafText =
     concat (map (render leafText) (take (nat to - nat from) (drop (nat from) (content node))))"

text \<open>A resolved position: its parent block, the offset into it, and the marks there.\<close>

record 'm resolved_pos =
  parent :: pnode
  parentOffset :: nat
  marks :: "'m list"

text \<open>
  A transform holds the steps applied so far, the document before each step (\<open>docs\<close>),
  and the current document. A transaction adds the selection flag and the metadata; only
  metadata stored under a plugin's key is modelled, and the value stored there by the
  runner is the revert record \<open>{transform, from, to, text}\<close>.
\<close>

record ('d, 's) transform =
  steps :: "'s list"
  docs :: "'d list"
  doc :: 'd

record ('d, 's) undoable =
  rec_transform :: "('d, 's) transform"
  rec_from :: int
  rec_to :: int
  rec_text :: jsstring

record ('d, 's) transaction = "('d, 's) transform" +
  selectionSet :: bool
  meta :: "nat \<rightharpoonup> ('d, 's) undoable"

definition docChanged :: "('d, 's) transaction \<Rightarrow> bool" where
  "docChanged tr = (steps tr \<noteq> [])"

definition setMeta ::
  "nat \<Rightarrow> ('d, 's) undoable \<Rightarrow> ('d, 's) transaction \<Rightarrow> ('d, 's) transaction" where
  "setMeta key v tr = tr\<lparr>meta := (meta tr)(key \<mapsto> v)\<rparr>"

definition getMeta :: "nat \<Rightarrow> ('d, 's) transaction \<Rightarrow> ('d, 's) undoable option" where
  "getMeta key tr = meta tr key"

text \<open>
  A registered plugin as the revert command sees it: the marker \<open>spec.isInputRules\<close> and
  the plugin's current session state (\<open>plugin.getState(state)\<close>).
\<close>

record ('d, 's) plugin =
  isInputRules :: bool
  getState :: "('d, 's) undoable option"

record ('d, 's) editor_state =
  state_doc :: 'd
  plugins :: "('d, 's) plugin list"

record ('d, 's) view =
  composing :: bool
  state :: "('d, 's) editor_state"

text \<open>
  The operations of the host that the engine calls. \<open>resolve\<close> raises a range error for a
  position outside the document (\<open>None\<close>); \<open>step_apply\<close> fails when a step does not fit
  the document (\<open>None\<close>); \<open>schema_text\<close> builds a text node and may refuse (\<open>None\<close>);
  \<open>replace_step\<close> is the step behind \<open>replaceWith\<close>; \<open>view_dispatch\<close> is \<open>view.dispatch\<close>.
\<close>

datatype 'm text_node = TextNode jsstring "'m list"

record ('d, 's, 'm) host =
  resolve :: "'d \<Rightarrow> int \<Rightarrow> 'm resolved_pos option"
  step_apply :: "'s \<Rightarrow> 'd \<Rightarrow> 'd option"
  step_invert :: "'s \<Rightarrow> 'd \<Rightarrow> 's"
  schema_text :: "jsstring \<Rightarrow> 'm list \<Rightarrow> 'm text_node option"
  replace_step :: "int \<Rightarrow> int \<Rightarrow> 'm text_node \<Rightarrow> 's"
  view_dispatch :: "('d, 's) transaction \<Rightarrow> ('d, 's) view \<Rightarrow> ('d, 's) view"

section \<open>Input rules\<close>

text \<open>
  An input rule (lines 16 to 42). \<open>match\<close> is a regular expression; the runner only calls
  its \<open>exec\<close> method, modelled as a function from the subject to the match array or
  \<open>null\<close> (a regular expression without the global or sticky flag keeps no state between
  calls). \<open>handler\<close> returns a transaction or \<open>null\<close>.
\<close>

type_synonym ('d, 's) handler_fn =
  "('d, 's) editor_state \<Rightarrow> jschar rmatch \<Rightarrow> int \<Rightarrow> int \<Rightarrow> ('d, 's) transaction option"

record ('d, 's) input_rule =
  match :: "jsstring \<Rightarrow> jschar rmatch option"
  handler :: "('d, 's) handler_fn"

datatype ('d, 's) handler_arg = Str jsstring | Fn "('d, 's) handler_fn"

definition InputRule ::
  "(('d, 's) editor_state \<Rightarrow> jsstring \<Rightarrow> int \<Rightarrow> int \<Rightarrow> ('d, 's) transaction) \<Rightarrow>
   (jsstring \<Rightarrow> jschar rmatch option) \<Rightarrow> ('d, 's) handler_arg \<Rightarrow> ('d, 's) input_rule" where
  "InputRule insertText re h =
     \<lparr>match = re,
      handler = (case h of Str string \<Rightarrow> stringHandler insertText string | Fn f \<Rightarrow> f)\<rparr>"

definition MAX_MATCH :: int where
  "MAX_MATCH = 500"

section \<open>The plugin state\<close>

text \<open>The \<open>state\<close> field of the plugin created by \<open>inputRules\<close> (lines 69 to 78).\<close>

definition plugin_init :: "('d, 's) undoable option" where
  "plugin_init = None"

definition plugin_apply ::
  "nat \<Rightarrow> ('d, 's) transaction \<Rightarrow> ('d, 's) undoable option \<Rightarrow> ('d, 's) undoable option" where
  "plugin_apply this tr prev =
     (let stored = getMeta this tr in
      case stored of
        Some r \<Rightarrow> Some r
      | None \<Rightarrow> (if selectionSet tr \<or> docChanged tr then None else prev))"

section \<open>The runner\<close>

text \<open>
  What \<open>run\<close> does to the outside, in order: executing the pattern of rule \<open>i\<close> on a
  subject, calling the handler of rule \<open>i\<close>, dispatching a transaction.
\<close>

datatype ('d, 's) event =
  Exec nat jsstring
| Call nat "jschar rmatch" int int
| Dispatch "('d, 's) transaction"

text \<open>
  Lines 108 and 109: the match of one rule and the transaction of its handler, and what
  the two lines call.
\<close>

definition attempt ::
  "('d, 's) input_rule \<Rightarrow> ('d, 's) editor_state \<Rightarrow> int \<Rightarrow> int \<Rightarrow> jsstring \<Rightarrow> jsstring \<Rightarrow>
     ('d, 's) transaction option" where
  "attempt r st from to text textBefore =
     (case match r textBefore of
        None \<Rightarrow> None
      | Some m \<Rightarrow> handler r st m (from - (int (length (matched m)) - int (length text))) to)"

definition attempt_events ::
  "nat \<Rightarrow> ('d, 's) input_rule \<Rightarrow> int \<Rightarrow> int \<Rightarrow> jsstring \<Rightarrow> jsstring \<Rightarrow> ('d, 's) event list" where
  "attempt_events i r from to text textBefore =
     Exec i textBefore #
     (case match r textBefore of
        None \<Rightarrow> []
      | Some m \<Rightarrow> [Call i m (from - (int (length (matched m)) - int (length text))) to])"

text \<open>
  The loop of lines 107 to 114 from index \<open>i\<close> on, over the rules not yet tried. The
  result is the return value, the view afterwards, and the events in order.
\<close>

fun try_rules ::
  "('d, 's, 'm) host \<Rightarrow> ('d, 's) view \<Rightarrow> int \<Rightarrow> int \<Rightarrow> jsstring \<Rightarrow> jsstring \<Rightarrow> nat \<Rightarrow> nat \<Rightarrow>
     ('d, 's) input_rule list \<Rightarrow> bool \<times> ('d, 's) view \<times> ('d, 's) event list" where
  "try_rules h view from to text textBefore plugin i [] = (False, view, [])"
| "try_rules h view from to text textBefore plugin i (r # rs) =
     (case attempt r (state view) from to text textBefore of
        None \<Rightarrow>
          (case try_rules h view from to text textBefore plugin (Suc i) rs of
             (b, view', evs) \<Rightarrow> (b, view', attempt_events i r from to text textBefore @ evs))
      | Some tr \<Rightarrow>
          (let tr' = setMeta plugin
                       \<lparr>rec_transform = transform.truncate tr, rec_from = from, rec_to = to,
                        rec_text = text\<rparr> tr
           in (True, view_dispatch h tr' view,
               attempt_events i r from to text textBefore @ [Dispatch tr'])))"

definition leafText :: jsstring where
  "leafText = [0xFFFC]"

definition run ::
  "('d, 's, 'm) host \<Rightarrow> ('d, 's) view \<Rightarrow> int \<Rightarrow> int \<Rightarrow> jsstring \<Rightarrow> ('d, 's) input_rule list \<Rightarrow>
     nat \<Rightarrow> host_error + (bool \<times> ('d, 's) view \<times> ('d, 's) event list)" where
  "run h view from to text rules plugin =
     (if composing view then Inr (False, view, [])
      else
        (case resolve h (state_doc (state view)) from of
           None \<Rightarrow> Inl RangeError
         | Some from_pos \<Rightarrow>
             if code (parent from_pos) then Inr (False, view, [])
             else
               (let textBefore =
                      textBetween (parent from_pos)
                        (max 0 (int (parentOffset from_pos) - MAX_MATCH))
                        (int (parentOffset from_pos)) leafText @ text
                in Inr (try_rules h view from to text textBefore plugin 0 rules))))"

section \<open>Undoing an input rule\<close>

text \<open>
  \<open>state.tr\<close>: a fresh transaction on the state's document. \<open>tr.step(s)\<close> applies the step
  to the current document and raises when the step fails; otherwise it records the
  document before the step and the step itself.
\<close>

definition state_tr :: "('d, 's) editor_state \<Rightarrow> ('d, 's) transaction" where
  "state_tr st =
     \<lparr>steps = [], docs = [], doc = state_doc st, selectionSet = False, meta = Map.empty\<rparr>"

definition tr_step ::
  "('d, 's, 'm) host \<Rightarrow> 's \<Rightarrow> ('d, 's) transaction \<Rightarrow> host_error + ('d, 's) transaction" where
  "tr_step h s tr =
     (case step_apply h s (doc tr) of
        None \<Rightarrow> Inl TransformError
      | Some d \<Rightarrow> Inr (tr\<lparr>steps := steps tr @ [s], docs := docs tr @ [doc tr], doc := d\<rparr>))"

text \<open>
  The loop of line 129, with \<open>n\<close> steps still to invert: it handles index \<open>j = n - 1\<close> and
  goes on downwards. Reading \<open>steps[j]\<close> or \<open>docs[j]\<close> past the end gives \<open>undefined\<close>,
  on which the call of \<open>invert\<close> raises a type error.
\<close>

fun invert_steps ::
  "('d, 's, 'm) host \<Rightarrow> ('d, 's) transform \<Rightarrow> nat \<Rightarrow> ('d, 's) transaction \<Rightarrow>
     host_error + ('d, 's) transaction" where
  "invert_steps h toUndo 0 tr = Inr tr"
| "invert_steps h toUndo (Suc j) tr =
     (if j < length (steps toUndo) \<and> j < length (docs toUndo) then
        (case tr_step h (step_invert h (steps toUndo ! j) (docs toUndo ! j)) tr of
           Inl e \<Rightarrow> Inl e
         | Inr tr' \<Rightarrow> invert_steps h toUndo j tr')
      else Inl TypeError)"

text \<open>Lines 127 to 131: the transaction handed to \<open>dispatch\<close>.\<close>

definition undo_transaction ::
  "('d, 's, 'm) host \<Rightarrow> ('d, 's) editor_state \<Rightarrow> ('d, 's) undoable \<Rightarrow>
     host_error + ('d, 's) transaction" where
  "undo_transaction h st undoable =
     (let tr = state_tr st; toUndo = rec_transform undoable in
      case invert_steps h toUndo (length (steps toUndo)) tr of
        Inl e \<Rightarrow> Inl e
      | Inr tr \<Rightarrow>
          (case resolve h (doc tr) (rec_from undoable) of
             None \<Rightarrow> Inl RangeError
           | Some pos \<Rightarrow>
               (case schema_text h (rec_text undoable) (marks pos) of
                  None \<Rightarrow> Inl RangeError
                | Some node \<Rightarrow>
                    tr_step h (replace_step h (rec_from undoable) (rec_to undoable) node) tr)))"

text \<open>
  \<open>undoInputRule\<close> (lines 120 to 137), as a loop over the plugins not yet looked at.
  \<open>dispatch\<close> tells whether the callback was supplied; the result is the return value and
  the transactions the callback received.
\<close>

fun undo_loop ::
  "('d, 's, 'm) host \<Rightarrow> ('d, 's) editor_state \<Rightarrow> bool \<Rightarrow> ('d, 's) plugin list \<Rightarrow>
     host_error + (bool \<times> ('d, 's) transaction list)" where
  "undo_loop h st dispatch [] = Inr (False, [])"
| "undo_loop h st dispatch (p # ps) =
     (if isInputRules p \<and> getState p \<noteq> None then
        (if dispatch then
           (case undo_transaction h st (the (getState p)) of
              Inl e \<Rightarrow> Inl e
            | Inr tr \<Rightarrow> Inr (True, [tr]))
         else Inr (True, []))
      else undo_loop h st dispatch ps)"

definition undoInputRule ::
  "('d, 's, 'm) host \<Rightarrow> ('d, 's) editor_state \<Rightarrow> bool \<Rightarrow>
     host_error + (bool \<times> ('d, 's) transaction list)" where
  "undoInputRule h st dispatch = undo_loop h st dispatch (plugins st)"

section \<open>Auxiliary notions for the statements\<close>

text \<open>
  The events of trying the given rules one after the other, the first of them having
  index \<open>i\<close>, when none of them stops the loop.
\<close>

fun tried_events ::
  "nat \<Rightarrow> ('d, 's) input_rule list \<Rightarrow> int \<Rightarrow> int \<Rightarrow> jsstring \<Rightarrow> jsstring \<Rightarrow> ('d, 's) event list" where
  "tried_events i [] from to text textBefore = []"
| "tried_events i (r # rs) from to text textBefore =
     attempt_events i r from to text textBefore @ tried_events (Suc i) rs from to text textBefore"

text \<open>The revert record that the runner attaches to the transaction of a rule.\<close>

definition revert_record ::
  "('d, 's) transaction \<Rightarrow> int \<Rightarrow> int \<Rightarrow> jsstring \<Rightarrow> ('d, 's) undoable" where
  "revert_record tr from to text =
     \<lparr>rec_transform = transform.truncate tr, rec_from = from, rec_to = to, rec_text = text\<rparr>"

text \<open>
  Applying the steps one after the other from a document: the documents before each
  step and the final document, or \<open>None\<close> when a step fails. A transform records the
  change from \<open>d\<close> when replaying its steps from \<open>d\<close> gives its \<open>docs\<close> and its \<open>doc\<close>.
\<close>

fun replay :: "('d, 's, 'm) host \<Rightarrow> 'd \<Rightarrow> 's list \<Rightarrow> ('d list \<times> 'd) option" where
  "replay h d [] = Some ([], d)"
| "replay h d (s # ss) =
     (case step_apply h s d of
        None \<Rightarrow> None
      | Some d' \<Rightarrow>
          (case replay h d' ss of
             None \<Rightarrow> None
           | Some (ds, e) \<Rightarrow> Some (d # ds, e)))"

text \<open>The first plugin at which the loop of the revert command stops.\<close>

definition active_plugin :: "('d, 's) editor_state \<Rightarrow> ('d, 's) plugin option" where
  "active_plugin st = find (\<lambda>p. isInputRules p \<and> getState p \<noteq> None) (plugins st)"

section \<open>A small host for the closed examples\<close>

text \<open>
  Documents are flat texts in a single block that is not a code block, without marks. A
  step \<open>(f, t, s)\<close> replaces the range \<open>[f, t)\<close> by the text \<open>s\<close>; its inverse puts back
  what the range held. Text nodes must not be empty. Dispatching a transaction installs
  its document and lets every input-rules plugin (all under key 0) apply it.
\<close>

type_synonym ex_step = "nat \<times> nat \<times> jsstring"

definition ex_resolve :: "jsstring \<Rightarrow> int \<Rightarrow> unit resolved_pos option" where
  "ex_resolve d p =
     (if 0 \<le> p \<and> p \<le> int (length d)
      then Some \<lparr>parent = \<lparr>code = False, content = map Chr d\<rparr>, parentOffset = nat p, marks = []\<rparr>
      else None)"

fun ex_step_apply :: "ex_step \<Rightarrow> jsstring \<Rightarrow> jsstring option" where
  "ex_step_apply (f, t, s) d =
     (if f \<le> t \<and> t \<le> length d then Some (take f d @ s @ drop t d) else None)"

fun ex_step_invert :: "ex_step \<Rightarrow> jsstring \<Rightarrow> ex_step" where
  "ex_step_invert (f, t, s) d = (f, f + length s, take (t - f) (drop f d))"

definition ex_schema_text :: "jsstring \<Rightarrow> unit list \<Rightarrow> unit text_node option" where
  "ex_schema_text s ms = (if s = [] then None else Some (TextNode s ms))"

fun ex_replace_step :: "int \<Rightarrow> int \<Rightarrow> unit text_node \<Rightarrow> ex_step" where
  "ex_replace_step f t (TextNode s ms) = (nat f, nat t, s)"

definition ex_dispatch ::
  "(jsstring, ex_step) transaction \<Rightarrow> (jsstring, ex_step) view \<Rightarrow> (jsstring, ex_step) view" where
  "ex_dispatch tr v =
     v\<lparr>state :=
         \<lparr>state_doc = doc tr,
          plugins = map (\<lambda>p. if isInputRules p
                              then p\<lparr>getState := plugin_apply 0 tr (getState p)\<rparr> else p)
                      (plugins (state v))\<rparr>\<rparr>"

definition ex_host :: "(jsstring, ex_step, unit) host" where
  "ex_host =
     \<lparr>resolve = ex_resolve, step_apply = ex_step_apply, step_invert = ex_step_invert,
      schema_text = ex_schema_text, replace_step = ex_replace_step,
      view_dispatch = ex_dispatch\<rparr>"

definition ex_insertText ::
  "(jsstring, ex_step) editor_state \<Rightarrow> jsstring \<Rightarrow> int \<Rightarrow> int \<Rightarrow> (jsstring, ex_step) transaction" where
  "ex_insertText st ins s e =
     \<lparr>steps = [(nat s, nat e, ins)], docs = [state_doc st],
      doc = take (nat s) (state_doc st) @ ins @ drop (nat e) (state_doc st),
      selectionSet = False, meta = Map.empty\<rparr>"

text \<open>
  The example of the specification: the rule \<open>/--$/\<close> with the replacement string
  the em dash (U+2014); a rule with the same pattern whose handler always declines; and a
  rule \<open>/x$/\<close> that never matches the example's text. The document is \<open>"a-"\<close>, the
  caret is at its end, and \<open>"-"\<close> is typed.
\<close>

definition ends_with :: "jsstring \<Rightarrow> jsstring \<Rightarrow> jschar rmatch option" where
  "ends_with t s =
     (if length t \<le> length s \<and> drop (length s - length t) s = t then Some (RMatch t []) else None)"

definition dash_rule :: "(jsstring, ex_step) input_rule" where
  "dash_rule = InputRule ex_insertText (ends_with [0x2D, 0x2D]) (Str [0x2014])"

definition veto_rule :: "(jsstring, ex_step) input_rule" where
  "veto_rule = InputRule ex_insertText (ends_with [0x2D, 0x2D]) (Fn (\<lambda>st m s e. None))"

definition x_rule :: "(jsstring, ex_step) input_rule" where
  "x_rule = InputRule ex_insertText (ends_with [0x78]) (Str [0x79])"

definition ex_view :: "(jsstring, ex_step) view" where
  "ex_view =
     \<lparr>composing = False,
      state = \<lparr>state_doc = [0x61, 0x2D],
               plugins = [\<lparr>isInputRules = False, getState = None\<rparr>,
                          \<lparr>isInputRules = True, getState = None\<rparr>]\<rparr>\<rparr>"

text \<open>The same host, except that every block is a code block.\<close>

definition ex_code_host :: "(jsstring, ex_step, unit) host" where
  "ex_code_host =
     ex_host\<lparr>resolve :=
       (\<lambda>d p. map_option (\<lambda>pos. pos\<lparr>parent := (parent pos)\<lparr>code := True\<rparr>\<rparr>) (ex_resolve d p))\<rparr>"

text \<open>
  A host whose positions all resolve to offset 602 of a block holding 600 times the
  letter \<open>a\<close>, an embedded non-text node, and a dash.
\<close>

definition ex_long_pos :: "unit resolved_pos" where
  "ex_long_pos =
     \<lparr>parent = \<lparr>code = False, content = replicate 600 (Chr 0x61) @ [NonText, Chr 0x2D]\<rparr>,
      parentOffset = 602, marks = []\<rparr>"

definition ex_long_host :: "(jsstring, ex_step, unit) host" where
  "ex_long_host = ex_host\<lparr>resolve := (\<lambda>d p. Some ex_long_pos)\<rparr>"

text \<open>Transactions for the examples of the plugin state.\<close>

definition ex_record :: "(jsstring, ex_step) undoable" where
  "ex_record =
     revert_record (ex_insertText (state ex_view) [0x2014] 1 2) 2 2 [0x2D]"

definition ex_rule_tr :: "(jsstring, ex_step) transaction" where
  "ex_rule_tr = setMeta 0 ex_record (ex_insertText (state ex_view) [0x2014] 1 2)"

definition ex_edit_tr :: "(jsstring, ex_step) transaction" where
  "ex_edit_tr = ex_insertText (state ex_view) [0x62] 0 0"

definition ex_idle_tr :: "(jsstring, ex_step) transaction" where
  "ex_idle_tr = state_tr (state ex_view)"

text \<open>The state of the example view after the dash rule has been applied.\<close>

definition ex_state_after :: "(jsstring, ex_step) editor_state" where
  "ex_state_after = state (ex_dispatch ex_rule_tr ex_view)"

text \<open>
  A rule like \<open>/--(x*)$/\<close> with the em dash as replacement: its group 1 takes part in
  every match, with the empty text when no \<open>x\<close> precedes the end.
\<close>

definition ends_with_empty_group :: "jsstring \<Rightarrow> jsstring \<Rightarrow> jschar rmatch option" where
  "ends_with_empty_group t s =
     (if length t \<le> length s \<and> drop (length s - length t) s = t
      then Some (RMatch t [Some []]) else None)"

definition dash_group_rule :: "(jsstring, ex_step) input_rule" where
  "dash_group_rule = InputRule ex_insertText (ends_with_empty_group [0x2D, 0x2D]) (Str [0x2014])"

text \<open>
  The composition-end path (line 88): a composition has put the second dash into the
  document, which now reads \<open>"a--"\<close>; the runner is then called at the caret, position
  3, with the empty text. The dash rule fires; the record it leaves holds the empty text.
\<close>

definition ex_view_composed :: "(jsstring, ex_step) view" where
  "ex_view_composed =
     \<lparr>composing = False,
      state = \<lparr>state_doc = [0x61, 0x2D, 0x2D],
               plugins = [\<lparr>isInputRules = False, getState = None\<rparr>,
                          \<lparr>isInputRules = True, getState = None\<rparr>]\<rparr>\<rparr>"

definition ex_composed_record :: "(jsstring, ex_step) undoable" where
  "ex_composed_record =
     revert_record (ex_insertText (state ex_view_composed) [0x2014] 1 3) 3 3 []"

definition ex_composed_tr :: "(jsstring, ex_step) transaction" where
  "ex_composed_tr =
     setMeta 0 ex_composed_record (ex_insertText (state ex_view_composed) [0x2014] 1 3)"

definition ex_state_composed :: "(jsstring, ex_step) editor_state" where
  "ex_state_composed = state (ex_dispatch ex_composed_tr ex_view_composed)"

section \<open>Properties of the string primitives\<close>

lemma lastIndexOf_upto_bounds: "- 1 \<le> lastIndexOf_upto s t n \<and> lastIndexOf_upto s t n \<le> int n"
  by (induction n) auto

lemma lastIndexOf_upto_occurs:
  "0 \<le> lastIndexOf_upto s t n \<Longrightarrow> occurs_at s t (nat (lastIndexOf_upto s t n))"
proof (induction n)
  case 0
  then show ?case by (simp split: if_splits)
next
  case (Suc n)
  show ?case
  proof (cases "occurs_at s t (Suc n)")
    case True
    have "nat (int (Suc n)) = Suc n" by (rule nat_int)
    with True show ?thesis by (simp del: of_nat_Suc)
  next
    case False
    with Suc show ?thesis by simp
  qed
qed

lemma lastIndexOf_upto_greatest:
  "occurs_at s t k \<Longrightarrow> k \<le> n \<Longrightarrow> int k \<le> lastIndexOf_upto s t n"
proof (induction n)
  case 0
  then show ?case by simp
next
  case (Suc n)
  show ?case
  proof (cases "occurs_at s t (Suc n)")
    case True
    with Suc.prems show ?thesis by simp
  next
    case False
    with Suc.prems have "k \<le> n" by (cases "k = Suc n") auto
    with Suc.IH Suc.prems False show ?thesis by simp
  qed
qed

lemma occurs_at_length: "occurs_at s t k \<Longrightarrow> t \<noteq> [] \<Longrightarrow> k + length t \<le> length s"
proof -
  assume o: "occurs_at s t k" and ne: "t \<noteq> []"
  have "length (take (length t) (drop k s)) = length t" using o by (simp add: occurs_at_def)
  then have "min (length t) (length s - k) = length t" by simp
  with ne show ?thesis by (cases t) auto
qed

lemma occurs_at_split:
  "occurs_at s t k \<Longrightarrow> t \<noteq> [] \<Longrightarrow> s = take k s @ t @ drop (k + length t) s"
proof -
  assume o: "occurs_at s t k" and ne: "t \<noteq> []"
  have "s = take k s @ drop k s" by simp
  also have "drop k s = take (length t) (drop k s) @ drop (length t) (drop k s)"
    by (simp only: append_take_drop_id)
  also have "take (length t) (drop k s) = t" using o by (simp add: occurs_at_def)
  also have "drop (length t) (drop k s) = drop (k + length t) s" by (simp add: add.commute)
  finally show ?thesis .
qed

lemma str_slice_in_range:
  "0 \<le> b \<Longrightarrow> b \<le> e \<Longrightarrow> e \<le> int (length s) \<Longrightarrow>
   str_slice s b e = take (nat (e - b)) (drop (nat b) s)"
  by (auto simp: str_slice_def rel_index_def Let_def min_def nat_diff_distrib)

lemma str_slice_from_in_range:
  "0 \<le> b \<Longrightarrow> str_slice_from s b = drop (nat b) s"
  by (auto simp: str_slice_from_def rel_index_def min_def)

section \<open>Properties of the string handler\<close>

text \<open>
  C1, counterexample. The claim takes \<open>G\<close> to be the first non-empty capturing group of the
  match. For the match array \<open>["ab", undefined, "b"]\<close> (as produced by a pattern such as
  \<open>(x)?a(b)$\<close>) that group is \<open>"b"\<close>, and the substitution of the claim would replace
  \<open>[5, 5)\<close>; the handler looks at group 1 only, finds it undefined, and replaces the whole
  range \<open>[4, 5)\<close>.
\<close>

theorem first_nonempty_group_counterexample:
  "stringHandler InsertText ''R'' () (RMatch ''ab'' [None, Some ''b'']) 4 5
     \<noteq> Some (spec_substitution ''R'' () (RMatch ''ab'' [None, Some ''b'']) 4 5)
   \<and> spec_group (RMatch ''ab'' [None, Some ''b'']) = Some ''b''
   \<and> stringHandler InsertText ''R'' () (RMatch ''ab'' [None, Some ''b'']) 4 5
       = Some (InsertText () ''R'' 4 5)
   \<and> spec_substitution ''R'' () (RMatch ''ab'' [None, Some ''b'']) 4 5
       = InsertText () ''R'' 5 5"
  by (simp add: spec_group_def spec_substitution_def lastIndexOf_def occurs_at_def
        str_slice_def str_slice_from_def rel_index_def stringHandler_def Let_def)

text \<open>
  C1, amended. When capturing group 1 took part in the match with a non-empty text \<open>G\<close>
  (later groups are never consulted), the handler computes \<open>groupOffset\<close> as
  \<open>lastIndexOf\<close> of \<open>G\<close> in the full match \<open>M\<close>, \<open>insertText\<close> as \<open>R\<close> followed by the
  slice of \<open>M\<close> from \<open>groupOffset + len(G)\<close>, shifts \<open>start\<close> by \<open>groupOffset\<close>, and when
  \<open>cutOff = start - end\<close> is positive prepends the slice of \<open>M\<close> from
  \<open>groupOffset - cutOff\<close> to \<open>groupOffset\<close> and resets \<open>start\<close> to \<open>end\<close>; the
  transaction replaces \<open>[start, end)\<close> with \<open>insertText\<close>. Whenever \<open>G\<close> occurs in \<open>M\<close>,
  \<open>groupOffset\<close> is its last occurrence and \<open>M\<close> splits into the text before the group,
  \<open>G\<close>, and the suffix; when it does not occur, \<open>groupOffset\<close> is \<open>-1\<close>. Whenever
  \<open>cutOff\<close> does not exceed \<open>groupOffset\<close>, the prepended slice is exactly the \<open>cutOff\<close>
  code units of \<open>M\<close> before the group.
\<close>

theorem stringHandler_substitution:
  assumes g: "match_at m 1 = Some G" and ne: "G \<noteq> []"
    and M: "M = matched m"
    and off: "groupOffset = lastIndexOf M G"
    and ins: "insertText = R @ str_slice_from M (groupOffset + int (length G))"
    and cut: "cutOff = start + groupOffset - end"
  shows "stringHandler f R st m start end =
           Some (if cutOff > 0
                 then f st (str_slice M (groupOffset - cutOff) groupOffset @ insertText) end end
                 else f st insertText (start + groupOffset) end)
         \<and> (\<forall>k. occurs_at M G k \<longrightarrow>
               int k \<le> groupOffset \<and> occurs_at M G (nat groupOffset) \<and>
               M = take (nat groupOffset) M @ G @ str_slice_from M (groupOffset + int (length G)))
         \<and> ((\<forall>k. \<not> occurs_at M G k) \<longrightarrow> groupOffset = - 1)
         \<and> (0 < cutOff \<and> cutOff \<le> groupOffset \<and> (\<exists>k. occurs_at M G k) \<longrightarrow>
               str_slice M (groupOffset - cutOff) groupOffset
                 = take (nat cutOff) (drop (nat (groupOffset - cutOff)) M)
               \<and> int (length (str_slice M (groupOffset - cutOff) groupOffset)) = cutOff)"
proof -
  have run: "stringHandler f R st m start end =
           Some (if cutOff > 0
                 then f st (str_slice M (groupOffset - cutOff) groupOffset @ insertText) end end
                 else f st insertText (start + groupOffset) end)"
    using g ne by (simp add: stringHandler_def Let_def M off ins cut)
  have occ: "int k \<le> groupOffset \<and> occurs_at M G (nat groupOffset) \<and>
               M = take (nat groupOffset) M @ G @ str_slice_from M (groupOffset + int (length G))"
    if o: "occurs_at M G k" for k
  proof -
    from occurs_at_length [OF o ne] have kl: "k \<le> length M" by simp
    from lastIndexOf_upto_greatest [OF o kl] have ge: "int k \<le> groupOffset"
      by (simp add: off lastIndexOf_def)
    then have nn: "0 \<le> groupOffset" by simp
    then have oc: "occurs_at M G (nat groupOffset)"
      using lastIndexOf_upto_occurs [of M G "length M"] by (simp add: off lastIndexOf_def)
    from occurs_at_split [OF oc ne]
    have "M = take (nat groupOffset) M @ G @ drop (nat groupOffset + length G) M" .
    moreover have "str_slice_from M (groupOffset + int (length G)) = drop (nat groupOffset + length G) M"
      using nn by (simp add: str_slice_from_in_range nat_add_distrib)
    ultimately show ?thesis using ge oc by simp
  qed
  have none: "groupOffset = - 1" if no: "\<forall>k. \<not> occurs_at M G k"
  proof -
    have "\<not> 0 \<le> groupOffset"
      using lastIndexOf_upto_occurs [of M G "length M"] no by (auto simp: off lastIndexOf_def)
    moreover have "- 1 \<le> groupOffset"
      using lastIndexOf_upto_bounds [of M G "length M"] by (simp add: off lastIndexOf_def)
    ultimately show ?thesis by simp
  qed
  have pre: "str_slice M (groupOffset - cutOff) groupOffset
                 = take (nat cutOff) (drop (nat (groupOffset - cutOff)) M)
               \<and> int (length (str_slice M (groupOffset - cutOff) groupOffset)) = cutOff"
    if c: "0 < cutOff \<and> cutOff \<le> groupOffset \<and> (\<exists>k. occurs_at M G k)"
  proof -
    from c obtain k where o: "occurs_at M G k" by blast
    from occ [OF o] have oc: "occurs_at M G (nat groupOffset)" by simp
    from c have nn: "0 \<le> groupOffset" by simp
    from occurs_at_length [OF oc ne] nn have le: "groupOffset \<le> int (length M)" by simp
    have eq: "str_slice M (groupOffset - cutOff) groupOffset
                 = take (nat cutOff) (drop (nat (groupOffset - cutOff)) M)"
      using str_slice_in_range [of "groupOffset - cutOff" groupOffset M] c le by simp
    have "length (take (nat cutOff) (drop (nat (groupOffset - cutOff)) M)) = nat cutOff"
      using c le by (simp add: min_def) linarith
    then show ?thesis unfolding eq using c by simp
  qed
  from run occ none pre show ?thesis by blast
qed

text \<open>
  C1, witness: the match \<open>"xab"\<close> with group 1 \<open>"b"\<close>, start 4 and end 5. The group lies
  at offset 2, the shifted start 6 exceeds the end by 1, and the code unit \<open>"a"\<close> before
  the group is prepended.
\<close>

theorem stringHandler_substitution_witness:
  "match_at (RMatch ''xab'' [Some ''b'']) 1 = Some ''b'' \<and> ''b'' \<noteq> []
   \<and> lastIndexOf ''xab'' ''b'' = 2
   \<and> occurs_at ''xab'' ''b'' 2
   \<and> (0::int) < 4 + 2 - 5 \<and> (4::int) + 2 - 5 \<le> 2
   \<and> stringHandler InsertText ''R'' () (RMatch ''xab'' [Some ''b'']) 4 5
       = Some (InsertText () ''aR'' 5 5)
   \<and> str_slice ''xab'' 1 2 = ''a''"
  using stringHandler_substitution
    [of "RMatch ''xab'' [Some ''b'']" "''b''" "''xab''" 2 "''R''" "''R''" 1 4 5 InsertText "()"]
  by (simp add: lastIndexOf_def occurs_at_def str_slice_def str_slice_from_def rel_index_def
        stringHandler_def Let_def)

text \<open>
  C2, amended. Whenever capturing group 1 took part in the match with a non-empty text, for
  every start and end given to the handler, the handler returns a transaction that
  replaces a range \<open>[start', end)\<close> with \<open>start' \<le> end\<close>: the start is the smaller of
  the shifted start and the end.
\<close>

theorem stringHandler_range:
  assumes "truthy (match_at m 1)"
  shows "\<exists>insert start'.
           stringHandler InsertText R st m start end = Some (InsertText st insert start' end)
           \<and> start' = min (start + lastIndexOf (matched m) (the (match_at m 1))) end
           \<and> start' \<le> end"
  using assms by (simp add: stringHandler_def Let_def min_def)

text \<open>C2, witness: the same match as for C1; the range produced is \<open>[5, 5)\<close>.\<close>

theorem stringHandler_range_witness:
  "truthy (match_at (RMatch ''xab'' [Some ''b'']) 1)
   \<and> stringHandler InsertText ''R'' () (RMatch ''xab'' [Some ''b'']) 4 5
       = Some (InsertText () ''aR'' 5 5)
   \<and> (5::int) = min (4 + lastIndexOf ''xab'' ''b'') 5"
  using stringHandler_range [of "RMatch ''xab'' [Some ''b'']" "''R''" "()" 4 5]
  by (simp add: lastIndexOf_def occurs_at_def str_slice_def str_slice_from_def rel_index_def
        stringHandler_def Let_def)

section \<open>Properties of the runner\<close>

lemma try_rules_skip:
  "\<forall>q \<in> set pre. attempt q (state view) from to text textBefore = None \<Longrightarrow>
   try_rules h view from to text textBefore plugin i (pre @ rest) =
     (case try_rules h view from to text textBefore plugin (i + length pre) rest of
        (b, view', evs) \<Rightarrow> (b, view', tried_events i pre from to text textBefore @ evs))"
proof (induction pre arbitrary: i)
  case Nil
  show ?case by (simp split: prod.splits)
next
  case (Cons q pre)
  from Cons.prems have q: "attempt q (state view) from to text textBefore = None"
    and rest: "\<forall>q \<in> set pre. attempt q (state view) from to text textBefore = None"
    by simp_all
  show ?case using q Cons.IH [OF rest, of "Suc i"] by (simp split: prod.splits)
qed

lemma try_rules_not_handled:
  "try_rules h view from to text textBefore plugin i rules = (False, view', evs) \<Longrightarrow>
   view' = view \<and> (\<forall>tr. Dispatch tr \<notin> set evs)
   \<and> (\<forall>q \<in> set rules. attempt q (state view) from to text textBefore = None)"
proof (induction rules arbitrary: i evs)
  case Nil
  then show ?case by simp
next
  case (Cons r rules)
  show ?case
  proof (cases "attempt r (state view) from to text textBefore")
    case None
    obtain b v2 evs2 where t: "try_rules h view from to text textBefore plugin (Suc i) rules = (b, v2, evs2)"
      by (cases "try_rules h view from to text textBefore plugin (Suc i) rules") auto
    with None Cons.prems have b: "b = False" and v: "v2 = view'"
      and e: "evs = attempt_events i r from to text textBefore @ evs2" by simp_all
    from Cons.IH [of "Suc i" evs2] t b v
    have "view' = view \<and> (\<forall>tr. Dispatch tr \<notin> set evs2)
       \<and> (\<forall>q \<in> set rules. attempt q (state view) from to text textBefore = None)" by simp
    then show ?thesis using e None by (auto simp: attempt_events_def split: option.splits)
  next
    case (Some tr)
    with Cons.prems show ?thesis by (simp add: Let_def)
  qed
qed

lemma textBetween_window:
  "textBetween node (max 0 (int po - MAX_MATCH)) (int po) lt =
     concat (map (render lt) (drop (po - 500) (take po (content node))))"
proof -
  have a: "nat (max 0 (int po - 500)) = po - 500" by simp
  have "take (po - (po - 500)) (drop (po - 500) (content node))
          = drop (po - 500) (take po (content node))"
    by (simp add: drop_take)
  then show ?thesis by (simp add: textBetween_def MAX_MATCH_def a)
qed

lemma run_guards_pass:
  "\<not> composing view \<Longrightarrow> resolve h (state_doc (state view)) from = Some pos \<Longrightarrow>
   \<not> code (parent pos) \<Longrightarrow>
   run h view from to text rules plugin =
     Inr (try_rules h view from to text
            (textBetween (parent pos) (max 0 (int (parentOffset pos) - MAX_MATCH))
               (int (parentOffset pos)) leafText @ text) plugin 0 rules)"
  by (simp add: run_def Let_def)

lemma tried_events_snoc:
  "tried_events i (ps @ [q]) from to text textBefore
     = tried_events i ps from to text textBefore
       @ attempt_events (i + length ps) q from to text textBefore"
  by (induction ps arbitrary: i) simp_all

lemma ex_pos:
  "resolve ex_host (state_doc (state ex_view)) 2
     = Some \<lparr>parent = \<lparr>code = False, content = [Chr 0x61, Chr 0x2D]\<rparr>,
             parentOffset = 2, marks = []\<rparr>"
  by (simp add: ex_host_def ex_resolve_def ex_view_def)

lemma ex_textBefore:
  "textBetween \<lparr>code = False, content = [Chr 0x61, Chr 0x2D]\<rparr>
     (max 0 (int 2 - MAX_MATCH)) (int 2) leafText @ [0x2D] = [0x61, 0x2D, 0x2D]"
  by (simp add: textBetween_def MAX_MATCH_def)

lemma ex_run:
  "run ex_host ex_view 2 2 [0x2D] rules 0
     = Inr (try_rules ex_host ex_view 2 2 [0x2D] [0x61, 0x2D, 0x2D] 0 0 rules)"
proof -
  have nc: "\<not> composing ex_view" by (simp add: ex_view_def)
  show ?thesis
    unfolding run_guards_pass [OF nc ex_pos, simplified]
    by (simp add: textBetween_def MAX_MATCH_def)
qed

lemma ex_attempts:
  "attempt x_rule st 2 2 [0x2D] [0x61, 0x2D, 0x2D] = None"
  "attempt veto_rule st 2 2 [0x2D] [0x61, 0x2D, 0x2D] = None"
  "attempt dash_rule st 2 2 [0x2D] [0x61, 0x2D, 0x2D] = Some (ex_insertText st [0x2014] 1 2)"
  by (simp_all add: attempt_def x_rule_def veto_rule_def dash_rule_def InputRule_def
        ends_with_def stringHandler_def)

lemma ex_matches:
  "match x_rule [0x61, 0x2D, 0x2D] = None"
  "match veto_rule [0x61, 0x2D, 0x2D] = Some (RMatch [0x2D, 0x2D] [])"
  "match dash_rule [0x61, 0x2D, 0x2D] = Some (RMatch [0x2D, 0x2D] [])"
  "handler veto_rule st m s e = None"
  by (simp_all add: x_rule_def veto_rule_def dash_rule_def InputRule_def ends_with_def)

text \<open>
  C2, counterexample. A capture group that takes part in the match with the empty text
  does not trigger the adjustment of lines 47 to 56. The document is \<open>"a-"\<close>, the text
  \<open>"a--"\<close> is inserted at its end, and the rule is \<open>/--(x*)$/\<close> with a replacement
  string: the match \<open>"--"\<close> is shorter than the inserted text, so the runner calls the
  handler with start 3 and end 2, and the handler asks for the replacement of the range
  \<open>[3, 2)\<close>, whose start exceeds its end.
\<close>

theorem stringHandler_range_counterexample:
  "match_at (RMatch [0x2D, 0x2D] [Some []]) 1 = Some ([] :: jsstring)
   \<and> stringHandler InsertText [0x2014 :: jschar] () (RMatch [0x2D, 0x2D] [Some []]) 3 2
       = Some (InsertText () [0x2014] 3 2)
   \<and> \<not> (3 :: int) \<le> 2
   \<and> run ex_host ex_view 2 2 [0x61, 0x2D, 0x2D] [dash_group_rule] 0
       = Inr (True,
              ex_dispatch (setMeta 0 (revert_record (ex_insertText (state ex_view) [0x2014] 3 2)
                                        2 2 [0x61, 0x2D, 0x2D])
                             (ex_insertText (state ex_view) [0x2014] 3 2)) ex_view,
              [Exec 0 [0x61, 0x2D, 0x61, 0x2D, 0x2D],
               Call 0 (RMatch [0x2D, 0x2D] [Some []]) 3 2,
               Dispatch (setMeta 0 (revert_record (ex_insertText (state ex_view) [0x2014] 3 2)
                                      2 2 [0x61, 0x2D, 0x2D])
                           (ex_insertText (state ex_view) [0x2014] 3 2))])"
proof -
  have nc: "\<not> composing ex_view" by (simp add: ex_view_def)
  have vd: "view_dispatch ex_host = ex_dispatch" by (simp add: ex_host_def)
  have run: "run ex_host ex_view 2 2 [0x61, 0x2D, 0x2D] [dash_group_rule] 0
     = Inr (try_rules ex_host ex_view 2 2 [0x61, 0x2D, 0x2D]
              [0x61, 0x2D, 0x61, 0x2D, 0x2D] 0 0 [dash_group_rule])"
    unfolding run_guards_pass [OF nc ex_pos, simplified]
    by (simp add: textBetween_def MAX_MATCH_def)
  have m: "match dash_group_rule [0x61, 0x2D, 0x61, 0x2D, 0x2D]
             = Some (RMatch [0x2D, 0x2D] [Some []])"
    by (simp add: dash_group_rule_def InputRule_def ends_with_empty_group_def)
  have hd: "handler dash_group_rule st (RMatch [0x2D, 0x2D] [Some []]) 3 2
             = Some (ex_insertText st [0x2014] 3 2)" for st
    by (simp add: dash_group_rule_def InputRule_def stringHandler_def)
  show ?thesis
    unfolding run
    by (simp add: attempt_def attempt_events_def m hd vd revert_record_def Let_def
          stringHandler_def)
qed

text \<open>
  C3. When the guards pass, the rules before \<open>r\<close> yield no transaction (their pattern
  does not match the window, or their handler returns null) and \<open>r\<close> is the first rule
  whose pattern matches the window and whose handler yields a transaction, then the runner
  tries the rules up to \<open>r\<close> in registration order, each against the same window,
  dispatches the transaction of \<open>r\<close> and nothing else, returns true, and tries none of
  the rules after \<open>r\<close>, whether they match or not.
\<close>

theorem run_first_match_wins:
  assumes nc: "\<not> composing view"
    and res: "resolve h (state_doc (state view)) from = Some pos"
    and ncode: "\<not> code (parent pos)"
    and tb: "textBefore =
               textBetween (parent pos) (max 0 (int (parentOffset pos) - MAX_MATCH))
                 (int (parentOffset pos)) leafText @ text"
    and rules: "rules = pre @ r # post"
    and pre: "\<forall>q \<in> set pre. attempt q (state view) from to text textBefore = None"
    and r: "attempt r (state view) from to text textBefore = Some tr"
  shows "run h view from to text rules plugin =
           Inr (True,
                view_dispatch h (setMeta plugin (revert_record tr from to text) tr) view,
                tried_events 0 (pre @ [r]) from to text textBefore
                  @ [Dispatch (setMeta plugin (revert_record tr from to text) tr)])"
proof -
  have "try_rules h view from to text textBefore plugin 0 (pre @ r # post) =
          (True, view_dispatch h (setMeta plugin (revert_record tr from to text) tr) view,
           tried_events 0 pre from to text textBefore
             @ attempt_events (length pre) r from to text textBefore
             @ [Dispatch (setMeta plugin (revert_record tr from to text) tr)])"
    unfolding try_rules_skip [OF pre]
    using r by (simp add: Let_def revert_record_def)
  then show ?thesis
    unfolding run_guards_pass [OF nc res ncode] tb [symmetric] rules
    by (simp add: tried_events_snoc)
qed

text \<open>
  C3, witness: on the document \<open>"a-"\<close> with \<open>"-"\<close> typed at its end, the rules are a
  rule that does not match, a rule that matches and declines, and the dash rule twice. The
  first dash rule is applied; the second one is not tried.
\<close>

theorem run_first_match_wins_witness:
  "\<not> composing ex_view
   \<and> resolve ex_host (state_doc (state ex_view)) 2
       = Some \<lparr>parent = \<lparr>code = False, content = [Chr 0x61, Chr 0x2D]\<rparr>,
               parentOffset = 2, marks = []\<rparr>
   \<and> attempt x_rule (state ex_view) 2 2 [0x2D] [0x61, 0x2D, 0x2D] = None
   \<and> attempt veto_rule (state ex_view) 2 2 [0x2D] [0x61, 0x2D, 0x2D] = None
   \<and> attempt dash_rule (state ex_view) 2 2 [0x2D] [0x61, 0x2D, 0x2D]
       = Some (ex_insertText (state ex_view) [0x2014] 1 2)
   \<and> run ex_host ex_view 2 2 [0x2D] [x_rule, veto_rule, dash_rule, dash_rule] 0
       = Inr (True,
              ex_dispatch (setMeta 0 (revert_record (ex_insertText (state ex_view) [0x2014] 1 2)
                                        2 2 [0x2D])
                             (ex_insertText (state ex_view) [0x2014] 1 2)) ex_view,
              [Exec 0 [0x61, 0x2D, 0x2D],
               Exec 1 [0x61, 0x2D, 0x2D], Call 1 (RMatch [0x2D, 0x2D] []) 1 2,
               Exec 2 [0x61, 0x2D, 0x2D], Call 2 (RMatch [0x2D, 0x2D] []) 1 2,
               Dispatch (setMeta 0 (revert_record (ex_insertText (state ex_view) [0x2014] 1 2)
                                      2 2 [0x2D])
                           (ex_insertText (state ex_view) [0x2014] 1 2))])"
proof -
  have nc: "\<not> composing ex_view" by (simp add: ex_view_def)
  have ncode: "\<not> code (parent \<lparr>parent = \<lparr>code = False, content = [Chr 0x61, Chr 0x2D]\<rparr>,
               parentOffset = 2, marks = ([]::unit list)\<rparr>)" by simp
  have tb: "[0x61, 0x2D, 0x2D] =
      textBetween (parent \<lparr>parent = \<lparr>code = False, content = [Chr 0x61, Chr 0x2D]\<rparr>,
               parentOffset = 2, marks = ([]::unit list)\<rparr>)
        (max 0 (int (parentOffset \<lparr>parent = \<lparr>code = False, content = [Chr 0x61, Chr 0x2D]\<rparr>,
               parentOffset = 2, marks = ([]::unit list)\<rparr>) - MAX_MATCH))
        (int (parentOffset \<lparr>parent = \<lparr>code = False, content = [Chr 0x61, Chr 0x2D]\<rparr>,
               parentOffset = 2, marks = ([]::unit list)\<rparr>)) leafText @ [0x2D]"
    using ex_textBefore by simp
  have rules: "[x_rule, veto_rule, dash_rule, dash_rule] = [x_rule, veto_rule] @ dash_rule # [dash_rule]"
    by simp
  have pre: "\<forall>q \<in> set [x_rule, veto_rule].
         attempt q (state ex_view) 2 2 [0x2D] [0x61, 0x2D, 0x2D] = None"
    by (simp add: ex_attempts)
  have r: "attempt dash_rule (state ex_view) 2 2 [0x2D] [0x61, 0x2D, 0x2D]
       = Some (ex_insertText (state ex_view) [0x2014] 1 2)" by (simp add: ex_attempts)
  from run_first_match_wins [OF nc ex_pos ncode tb rules pre r, of 0]
  show ?thesis using nc ex_pos pre r
    by (simp add: attempt_events_def ex_matches ex_host_def)
qed

text \<open>
  C4. When the guards pass, the rules before \<open>r\<close> yield no transaction, and the pattern
  of \<open>r\<close> matches the window but its handler returns null, the runner goes on with the
  rules after \<open>r\<close>, in order and with the same window: its result is the result of the
  loop over those rules, after the events of the rules tried so far. In particular, when
  the next rule yields a transaction, that transaction is dispatched.
\<close>

theorem run_falls_through:
  assumes nc: "\<not> composing view"
    and res: "resolve h (state_doc (state view)) from = Some pos"
    and ncode: "\<not> code (parent pos)"
    and tb: "textBefore =
               textBetween (parent pos) (max 0 (int (parentOffset pos) - MAX_MATCH))
                 (int (parentOffset pos)) leafText @ text"
    and rules: "rules = pre @ r # post"
    and pre: "\<forall>q \<in> set pre. attempt q (state view) from to text textBefore = None"
    and m: "match r textBefore = Some m"
    and veto: "handler r (state view) m (from - (int (length (matched m)) - int (length text))) to
                 = None"
  shows "run h view from to text rules plugin =
           Inr (case try_rules h view from to text textBefore plugin (Suc (length pre)) post of
                  (b, view', evs) \<Rightarrow>
                    (b, view', tried_events 0 (pre @ [r]) from to text textBefore @ evs))
         \<and> (\<forall>r' post' tr. post = r' # post' \<and>
               attempt r' (state view) from to text textBefore = Some tr \<longrightarrow>
               run h view from to text rules plugin =
                 Inr (True,
                      view_dispatch h (setMeta plugin (revert_record tr from to text) tr) view,
                      tried_events 0 (pre @ [r, r']) from to text textBefore
                        @ [Dispatch (setMeta plugin (revert_record tr from to text) tr)]))"
proof -
  have r: "attempt r (state view) from to text textBefore = None"
    using m veto by (simp add: attempt_def)
  have all: "\<forall>q \<in> set (pre @ [r]). attempt q (state view) from to text textBefore = None"
    using pre r by simp
  have split: "rules = (pre @ [r]) @ post" using rules by simp
  have first: "run h view from to text rules plugin =
           Inr (case try_rules h view from to text textBefore plugin (Suc (length pre)) post of
                  (b, view', evs) \<Rightarrow>
                    (b, view', tried_events 0 (pre @ [r]) from to text textBefore @ evs))"
    unfolding run_guards_pass [OF nc res ncode] tb [symmetric] split
      try_rules_skip [OF all]
    by simp
  have second: "run h view from to text rules plugin =
                 Inr (True,
                      view_dispatch h (setMeta plugin (revert_record tr from to text) tr) view,
                      tried_events 0 (pre @ [r, r']) from to text textBefore
                        @ [Dispatch (setMeta plugin (revert_record tr from to text) tr)])"
    if p: "post = r' # post' \<and> attempt r' (state view) from to text textBefore = Some tr"
    for r' post' tr
  proof -
    have next_rule: "try_rules h view from to text textBefore plugin (Suc (length pre)) post =
            (True, view_dispatch h (setMeta plugin (revert_record tr from to text) tr) view,
             attempt_events (Suc (length pre)) r' from to text textBefore
               @ [Dispatch (setMeta plugin (revert_record tr from to text) tr)])"
      using p by (simp add: Let_def revert_record_def)
    have "tried_events 0 ((pre @ [r]) @ [r']) from to text textBefore
            = tried_events 0 (pre @ [r]) from to text textBefore
              @ attempt_events (Suc (length pre)) r' from to text textBefore"
      unfolding tried_events_snoc [of 0 "pre @ [r]" r'] by simp
    then show ?thesis unfolding first next_rule by simp
  qed
  from first second show ?thesis by blast
qed


text \<open>
  C4, witness: the declining rule is followed by the dash rule, which is applied.
\<close>

theorem run_falls_through_witness:
  "\<not> composing ex_view
   \<and> resolve ex_host (state_doc (state ex_view)) 2
       = Some \<lparr>parent = \<lparr>code = False, content = [Chr 0x61, Chr 0x2D]\<rparr>,
               parentOffset = 2, marks = []\<rparr>
   \<and> attempt x_rule (state ex_view) 2 2 [0x2D] [0x61, 0x2D, 0x2D] = None
   \<and> match veto_rule [0x61, 0x2D, 0x2D] = Some (RMatch [0x2D, 0x2D] [])
   \<and> handler veto_rule (state ex_view) (RMatch [0x2D, 0x2D] []) 1 2 = None
   \<and> attempt dash_rule (state ex_view) 2 2 [0x2D] [0x61, 0x2D, 0x2D]
       = Some (ex_insertText (state ex_view) [0x2014] 1 2)
   \<and> run ex_host ex_view 2 2 [0x2D] [x_rule, veto_rule, dash_rule] 0
       = Inr (True,
              ex_dispatch (setMeta 0 (revert_record (ex_insertText (state ex_view) [0x2014] 1 2)
                                        2 2 [0x2D])
                             (ex_insertText (state ex_view) [0x2014] 1 2)) ex_view,
              [Exec 0 [0x61, 0x2D, 0x2D],
               Exec 1 [0x61, 0x2D, 0x2D], Call 1 (RMatch [0x2D, 0x2D] []) 1 2,
               Exec 2 [0x61, 0x2D, 0x2D], Call 2 (RMatch [0x2D, 0x2D] []) 1 2,
               Dispatch (setMeta 0 (revert_record (ex_insertText (state ex_view) [0x2014] 1 2)
                                      2 2 [0x2D])
                           (ex_insertText (state ex_view) [0x2014] 1 2))])"
proof -
  have nc: "\<not> composing ex_view" by (simp add: ex_view_def)
  have ncode: "\<not> code (parent \<lparr>parent = \<lparr>code = False, content = [Chr 0x61, Chr 0x2D]\<rparr>,
               parentOffset = 2, marks = ([]::unit list)\<rparr>)" by simp
  have tb: "[0x61, 0x2D, 0x2D] =
      textBetween (parent \<lparr>parent = \<lparr>code = False, content = [Chr 0x61, Chr 0x2D]\<rparr>,
               parentOffset = 2, marks = ([]::unit list)\<rparr>)
        (max 0 (int (parentOffset \<lparr>parent = \<lparr>code = False, content = [Chr 0x61, Chr 0x2D]\<rparr>,
               parentOffset = 2, marks = ([]::unit list)\<rparr>) - MAX_MATCH))
        (int (parentOffset \<lparr>parent = \<lparr>code = False, content = [Chr 0x61, Chr 0x2D]\<rparr>,
               parentOffset = 2, marks = ([]::unit list)\<rparr>)) leafText @ [0x2D]"
    using ex_textBefore by simp
  have rules: "[x_rule, veto_rule, dash_rule] = [x_rule] @ veto_rule # [dash_rule]"
    by simp
  have pre: "\<forall>q \<in> set [x_rule].
         attempt q (state ex_view) 2 2 [0x2D] [0x61, 0x2D, 0x2D] = None"
    by (simp add: ex_attempts)
  have m: "match veto_rule [0x61, 0x2D, 0x2D] = Some (RMatch [0x2D, 0x2D] [])"
    by (simp add: ex_matches)
  have veto: "handler veto_rule (state ex_view) (RMatch [0x2D, 0x2D] [])
                (2 - (int (length (matched (RMatch [0x2D, 0x2D] []))) - int (length [0x2D::jschar]))) 2
              = None"
    by (simp add: ex_matches)
  have r: "attempt dash_rule (state ex_view) 2 2 [0x2D] [0x61, 0x2D, 0x2D]
       = Some (ex_insertText (state ex_view) [0x2014] 1 2)" by (simp add: ex_attempts)
  from run_falls_through [OF nc ex_pos ncode tb rules pre m veto, of 0] r
  have "run ex_host ex_view 2 2 [0x2D] [x_rule, veto_rule, dash_rule] 0 =
          Inr (True,
               view_dispatch ex_host
                 (setMeta 0 (revert_record (ex_insertText (state ex_view) [0x2014] 1 2) 2 2 [0x2D])
                    (ex_insertText (state ex_view) [0x2014] 1 2)) ex_view,
               tried_events 0 ([x_rule] @ [veto_rule, dash_rule]) 2 2 [0x2D] [0x61, 0x2D, 0x2D]
                 @ [Dispatch (setMeta 0 (revert_record (ex_insertText (state ex_view) [0x2014] 1 2)
                                           2 2 [0x2D])
                                (ex_insertText (state ex_view) [0x2014] 1 2))])"
    by blast
  then show ?thesis using nc ex_pos pre m r
    by (simp add: attempt_events_def ex_matches ex_host_def)
qed

text \<open>
  C5. When the editor is composing, or the parent block of the insertion point is a code
  block, the runner returns false, leaves the view as it is, and executes no pattern and
  calls no handler: the list of events is empty.
\<close>

theorem run_guards:
  assumes "composing view
           \<or> (\<exists>pos. resolve h (state_doc (state view)) from = Some pos \<and> code (parent pos))"
  shows "run h view from to text rules plugin = Inr (False, view, [])"
  using assms by (auto simp: run_def)

text \<open>
  C5, witness: the example view while composing, and the example view on a host whose
  blocks are code blocks; the dash rule would match in both.
\<close>

theorem run_guards_witness:
  "composing (ex_view\<lparr>composing := True\<rparr>)
   \<and> run ex_host (ex_view\<lparr>composing := True\<rparr>) 2 2 [0x2D] [dash_rule] 0
       = Inr (False, ex_view\<lparr>composing := True\<rparr>, [])
   \<and> resolve ex_code_host (state_doc (state ex_view)) 2
       = Some \<lparr>parent = \<lparr>code = True, content = [Chr 0x61, Chr 0x2D]\<rparr>,
               parentOffset = 2, marks = []\<rparr>
   \<and> run ex_code_host ex_view 2 2 [0x2D] [dash_rule] 0 = Inr (False, ex_view, [])"
proof -
  have c: "composing (ex_view\<lparr>composing := True\<rparr>)" by simp
  have p: "resolve ex_code_host (state_doc (state ex_view)) 2
       = Some \<lparr>parent = \<lparr>code = True, content = [Chr 0x61, Chr 0x2D]\<rparr>,
               parentOffset = 2, marks = []\<rparr>"
    by (simp add: ex_code_host_def ex_host_def ex_resolve_def ex_view_def)
  have "run ex_host (ex_view\<lparr>composing := True\<rparr>) 2 2 [0x2D] [dash_rule] 0
       = Inr (False, ex_view\<lparr>composing := True\<rparr>, [])"
    using c by (intro run_guards) simp
  moreover have "run ex_code_host ex_view 2 2 [0x2D] [dash_rule] 0 = Inr (False, ex_view, [])"
    using p by (intro run_guards) simp
  ultimately show ?thesis using c p by simp
qed

text \<open>
  C10. Whenever the runner returns false, the view (hence the document and the session
  state of every plugin) is the one it was given and no transaction was dispatched.
\<close>

theorem run_not_handled:
  assumes "run h view from to text rules plugin = Inr (False, view', evs)"
  shows "view' = view \<and> (\<forall>tr. Dispatch tr \<notin> set evs)"
proof (cases "composing view")
  case True
  with assms show ?thesis by (simp add: run_def)
next
  case False
  show ?thesis
  proof (cases "resolve h (state_doc (state view)) from")
    case None
    with False assms show ?thesis by (simp add: run_def)
  next
    case (Some pos)
    show ?thesis
    proof (cases "code (parent pos)")
      case True
      with False Some assms show ?thesis by (simp add: run_def)
    next
      case nocode: False
      from assms have "try_rules h view from to text
            (textBetween (parent pos) (max 0 (int (parentOffset pos) - MAX_MATCH))
               (int (parentOffset pos)) leafText @ text) plugin 0 rules = (False, view', evs)"
        unfolding run_guards_pass [OF False Some nocode] by simp
      from try_rules_not_handled [OF this] show ?thesis by simp
    qed
  qed
qed

text \<open>
  C10, witness: a rule that does not match, followed by a rule that matches and declines.
\<close>

theorem run_not_handled_witness:
  "run ex_host ex_view 2 2 [0x2D] [x_rule, veto_rule] 0
     = Inr (False, ex_view,
            [Exec 0 [0x61, 0x2D, 0x2D],
             Exec 1 [0x61, 0x2D, 0x2D], Call 1 (RMatch [0x2D, 0x2D] []) 1 2])
   \<and> (\<forall>tr. Dispatch tr \<notin> set [Exec 0 [0x61, 0x2D, 0x2D],
             Exec 1 [0x61, 0x2D, 0x2D], Call 1 (RMatch [0x2D, 0x2D] []) 1 2])"
proof -
  have r: "run ex_host ex_view 2 2 [0x2D] [x_rule, veto_rule] 0
     = Inr (False, ex_view,
            [Exec 0 [0x61, 0x2D, 0x2D],
             Exec 1 [0x61, 0x2D, 0x2D], Call 1 (RMatch [0x2D, 0x2D] []) 1 2])"
    by (simp add: ex_run ex_attempts attempt_events_def ex_matches)
  from run_not_handled [OF r] r show ?thesis by simp
qed

section \<open>The match window and the plugin state\<close>

lemma attempt_events_exec:
  "Exec j s \<in> set (attempt_events i r from to text textBefore) \<Longrightarrow> s = textBefore"
  by (auto simp: attempt_events_def split: option.splits)

lemma try_rules_exec:
  "try_rules h view from to text textBefore plugin i rules = (b, v, evs) \<Longrightarrow>
   Exec j s \<in> set evs \<Longrightarrow> s = textBefore"
proof (induction rules arbitrary: i b v evs)
  case Nil
  then show ?case by simp
next
  case (Cons r rules)
  show ?case
  proof (cases "attempt r (state view) from to text textBefore")
    case None
    obtain b2 v2 evs2 where t: "try_rules h view from to text textBefore plugin (Suc i) rules = (b2, v2, evs2)"
      by (cases "try_rules h view from to text textBefore plugin (Suc i) rules") auto
    with None Cons.prems(1) have e: "evs = attempt_events i r from to text textBefore @ evs2"
      by simp
    with Cons.prems(2) have "Exec j s \<in> set (attempt_events i r from to text textBefore)
        \<or> Exec j s \<in> set evs2" by simp
    then show ?thesis using attempt_events_exec Cons.IH [OF t] by blast
  next
    case (Some tr)
    with Cons.prems have "Exec j s \<in> set (attempt_events i r from to text textBefore)"
      by (auto simp: Let_def)
    then show ?thesis by (rule attempt_events_exec)
  qed
qed

lemma try_rules_first_event:
  "try_rules h view from to text textBefore plugin i (r # rules) = (b, v, evs) \<Longrightarrow>
   \<exists>evs'. evs = Exec i textBefore # evs'"
  by (auto simp: attempt_events_def Let_def split: option.splits prod.splits)

lemma render_leafText:
  "concat (map (render leafText) ts) = map (\<lambda>t. case t of Chr c \<Rightarrow> c | NonText \<Rightarrow> 0xFFFC) ts"
  by (induction ts) (auto simp: leafText_def split: token.splits)

lemma attempt_no_match:
  "match q subject = None \<Longrightarrow> attempt q st from to text subject = None"
  by (simp add: attempt_def)

lemma tried_events_no_match:
  "\<forall>q \<in> set pre. match q subject = None \<Longrightarrow>
   tried_events i pre from to text subject = map (\<lambda>j. Exec j subject) [i..<i + length pre]"
proof (induction pre arbitrary: i)
  case Nil
  show ?case by simp
next
  case (Cons q pre)
  from Cons.prems have q: "match q subject = None"
    and rest: "\<forall>q \<in> set pre. match q subject = None" by simp_all
  have "[i..<i + length (q # pre)] = i # [Suc i..<Suc i + length pre]"
    using upt_conv_Cons [of i "i + Suc (length pre)"] by simp
  then show ?case using q Cons.IH [OF rest, of "Suc i"] by (simp add: attempt_events_def)
qed

lemma try_rules_restrict:
  "try_rules h view from to text subject plugin i
     (map (\<lambda>r. r\<lparr>match := (\<lambda>s. if s = subject then match r s else None)\<rparr>) rules)
   = try_rules h view from to text subject plugin i rules"
proof (induction rules arbitrary: i)
  case Nil
  show ?case by simp
next
  case (Cons r rules)
  have a: "attempt (r\<lparr>match := (\<lambda>s. if s = subject then match r s else None)\<rparr>)
             (state view) from to text subject
           = attempt r (state view) from to text subject"
    by (simp add: attempt_def split: option.splits)
  have e: "attempt_events i (r\<lparr>match := (\<lambda>s. if s = subject then match r s else None)\<rparr>)
             from to text subject
           = attempt_events i r from to text subject"
    by (simp add: attempt_events_def)
  show ?case by (simp only: list.map try_rules.simps a e Cons.IH)
qed

text \<open>
  C6. When the guards pass, the subject of the patterns is \<open>window @ text\<close>, where
  \<open>window\<close> renders the last 500 positions of the block before the insertion point (all
  of them when there are fewer), a code unit of text as itself and non-text content as the
  single code unit U+FFFC, and \<open>text\<close> is the text being inserted. The window has at
  most 500 code units. The patterns are executed against exactly this string: the result
  of the call does not change when every pattern is made to fail on all other strings; when
  no pattern matches this string, the call returns false after executing each pattern on
  it; and when \<open>r\<close> is the first rule whose pattern matches this string, its handler is
  called with that match and, when it yields a transaction, that transaction is
  dispatched. Every recorded pattern execution has this string as its subject.
\<close>

theorem run_window:
  assumes nc: "\<not> composing view"
    and res: "resolve h (state_doc (state view)) from = Some pos"
    and ncode: "\<not> code (parent pos)"
    and w: "window = map (\<lambda>t. case t of Chr c \<Rightarrow> c | NonText \<Rightarrow> 0xFFFC)
                       (drop (parentOffset pos - 500)
                          (take (parentOffset pos) (content (parent pos))))"
  shows "length window \<le> 500
         \<and> run h view from to text rules plugin =
             Inr (try_rules h view from to text (window @ text) plugin 0 rules)
         \<and> (\<forall>b v evs i s. run h view from to text rules plugin = Inr (b, v, evs)
               \<and> Exec i s \<in> set evs \<longrightarrow> s = window @ text)
         \<and> (rules \<noteq> [] \<longrightarrow>
               (\<exists>b v evs. run h view from to text rules plugin
                             = Inr (b, v, Exec 0 (window @ text) # evs)))
         \<and> run h view from to text
               (map (\<lambda>r. r\<lparr>match := (\<lambda>s. if s = window @ text then match r s else None)\<rparr>)
                  rules) plugin
             = run h view from to text rules plugin
         \<and> ((\<forall>q \<in> set rules. match q (window @ text) = None) \<longrightarrow>
               run h view from to text rules plugin =
                 Inr (False, view, map (\<lambda>j. Exec j (window @ text)) [0..<length rules]))
         \<and> (\<forall>pre r post m tr.
               rules = pre @ r # post
               \<and> (\<forall>q \<in> set pre. match q (window @ text) = None)
               \<and> match r (window @ text) = Some m
               \<and> handler r (state view) m
                    (from - (int (length (matched m)) - int (length text))) to = Some tr \<longrightarrow>
               run h view from to text rules plugin =
                 Inr (True,
                      view_dispatch h (setMeta plugin (revert_record tr from to text) tr) view,
                      map (\<lambda>j. Exec j (window @ text)) [0..<length pre]
                        @ [Exec (length pre) (window @ text),
                           Call (length pre) m
                             (from - (int (length (matched m)) - int (length text))) to,
                           Dispatch (setMeta plugin (revert_record tr from to text) tr)]))"
proof -
  let ?S = "window @ text"
  have len: "length window \<le> 500" unfolding w by simp
  have tb: "textBetween (parent pos) (max 0 (int (parentOffset pos) - MAX_MATCH))
              (int (parentOffset pos)) leafText = window"
    unfolding w textBetween_window render_leafText ..
  have run: "run h view from to text rs plugin =
             Inr (try_rules h view from to text ?S plugin 0 rs)" for rs
    unfolding run_guards_pass [OF nc res ncode] tb ..
  have subj: "s = ?S"
    if "run h view from to text rules plugin = Inr (b, v, evs) \<and> Exec i s \<in> set evs"
    for b v evs i s
  proof -
    from that have t: "try_rules h view from to text ?S plugin 0 rules = (b, v, evs)"
      and e: "Exec i s \<in> set evs" unfolding run by simp_all
    from try_rules_exec [OF t e] show ?thesis .
  qed
  have first: "\<exists>b v evs. run h view from to text rules plugin = Inr (b, v, Exec 0 ?S # evs)"
    if ne: "rules \<noteq> []"
  proof -
    from ne obtain r rs where rules: "rules = r # rs" by (cases rules) auto
    obtain b v evs where t: "try_rules h view from to text ?S plugin 0 (r # rs) = (b, v, evs)"
      by (cases "try_rules h view from to text ?S plugin 0 (r # rs)") auto
    from try_rules_first_event [OF t] obtain evs' where e: "evs = Exec 0 ?S # evs'" ..
    have "try_rules h view from to text ?S plugin 0 (r # rs) = (b, v, Exec 0 ?S # evs')"
      unfolding t e ..
    then have "run h view from to text rules plugin = Inr (b, v, Exec 0 ?S # evs')"
      unfolding run rules by simp
    then show ?thesis by blast
  qed
  have only: "run h view from to text
               (map (\<lambda>r. r\<lparr>match := (\<lambda>s. if s = ?S then match r s else None)\<rparr>) rules) plugin
             = run h view from to text rules plugin"
    unfolding run try_rules_restrict ..
  have none: "run h view from to text rules plugin =
                 Inr (False, view, map (\<lambda>j. Exec j ?S) [0..<length rules])"
    if no: "\<forall>q \<in> set rules. match q ?S = None"
  proof -
    from no have att: "\<forall>q \<in> set rules. attempt q (state view) from to text ?S = None"
      by (simp add: attempt_no_match)
    have "try_rules h view from to text ?S plugin 0 (rules @ []) =
            (False, view, tried_events 0 rules from to text ?S)"
      unfolding try_rules_skip [OF att] by simp
    then show ?thesis
      unfolding run using tried_events_no_match [OF no, where i = 0] by simp
  qed
  have some: "run h view from to text rules plugin =
                 Inr (True,
                      view_dispatch h (setMeta plugin (revert_record tr from to text) tr) view,
                      map (\<lambda>j. Exec j ?S) [0..<length pre]
                        @ [Exec (length pre) ?S,
                           Call (length pre) m
                             (from - (int (length (matched m)) - int (length text))) to,
                           Dispatch (setMeta plugin (revert_record tr from to text) tr)])"
    if c: "rules = pre @ r # post
               \<and> (\<forall>q \<in> set pre. match q ?S = None)
               \<and> match r ?S = Some m
               \<and> handler r (state view) m
                    (from - (int (length (matched m)) - int (length text))) to = Some tr"
    for pre r post m tr
  proof -
    from c have rules: "rules = pre @ r # post" and no: "\<forall>q \<in> set pre. match q ?S = None"
      and m: "match r ?S = Some m"
      and hd: "handler r (state view) m
                 (from - (int (length (matched m)) - int (length text))) to = Some tr"
      by simp_all
    from no have att: "\<forall>q \<in> set pre. attempt q (state view) from to text ?S = None"
      by (simp add: attempt_no_match)
    have r: "attempt r (state view) from to text ?S = Some tr"
      using m hd by (simp add: attempt_def)
    have "try_rules h view from to text ?S plugin 0 (pre @ r # post) =
            (True, view_dispatch h (setMeta plugin (revert_record tr from to text) tr) view,
             tried_events 0 pre from to text ?S
               @ [Exec (length pre) ?S,
                  Call (length pre) m
                    (from - (int (length (matched m)) - int (length text))) to,
                  Dispatch (setMeta plugin (revert_record tr from to text) tr)])"
      unfolding try_rules_skip [OF att]
      using r m by (simp add: Let_def revert_record_def attempt_events_def)
    then show ?thesis
      unfolding run rules using tried_events_no_match [OF no, where i = 0] by simp
  qed
  from len run [of rules] subj first only none some show ?thesis by blast
qed

text \<open>
  C6, witness: the insertion point lies after 600 letters, a non-text node and a dash; the
  window is the last 498 letters, U+FFFC and the dash, and the typed dash follows it. A
  rule that does not match this string is passed over, and the dash rule, which matches
  it, is applied.
\<close>

theorem run_window_witness:
  "\<not> composing ex_view
   \<and> resolve ex_long_host (state_doc (state ex_view)) 2 = Some ex_long_pos
   \<and> \<not> code (parent ex_long_pos)
   \<and> map (\<lambda>t. case t of Chr c \<Rightarrow> c | NonText \<Rightarrow> 0xFFFC)
        (drop (parentOffset ex_long_pos - 500)
           (take (parentOffset ex_long_pos) (content (parent ex_long_pos))))
       = replicate 498 0x61 @ [0xFFFC, 0x2D]
   \<and> length (replicate 498 (0x61::jschar) @ [0xFFFC, 0x2D]) = 500
   \<and> match x_rule (replicate 498 0x61 @ [0xFFFC, 0x2D, 0x2D]) = None
   \<and> match dash_rule (replicate 498 0x61 @ [0xFFFC, 0x2D, 0x2D]) = Some (RMatch [0x2D, 0x2D] [])
   \<and> handler dash_rule (state ex_view) (RMatch [0x2D, 0x2D] []) 1 2
       = Some (ex_insertText (state ex_view) [0x2014] 1 2)
   \<and> run ex_long_host ex_view 2 2 [0x2D] [x_rule] 0
       = Inr (False, ex_view, [Exec 0 (replicate 498 0x61 @ [0xFFFC, 0x2D, 0x2D])])
   \<and> run ex_long_host ex_view 2 2 [0x2D] [x_rule, dash_rule] 0
       = Inr (True, ex_dispatch ex_rule_tr ex_view,
              [Exec 0 (replicate 498 0x61 @ [0xFFFC, 0x2D, 0x2D]),
               Exec 1 (replicate 498 0x61 @ [0xFFFC, 0x2D, 0x2D]),
               Call 1 (RMatch [0x2D, 0x2D] []) 1 2,
               Dispatch ex_rule_tr])"
proof -
  let ?S = "(replicate 498 0x61 @ [0xFFFC, 0x2D]) @ [0x2D :: jschar]"
  let ?T = "ex_insertText (state ex_view) [0x2014] 1 2"
  have nc: "\<not> composing ex_view" by (simp add: ex_view_def)
  have res: "resolve ex_long_host (state_doc (state ex_view)) 2 = Some ex_long_pos"
    by (simp add: ex_long_host_def ex_host_def)
  have ncode: "\<not> code (parent ex_long_pos)" by (simp add: ex_long_pos_def)
  have w: "replicate 498 0x61 @ [0xFFFC, 0x2D] =
       map (\<lambda>t. case t of Chr c \<Rightarrow> c | NonText \<Rightarrow> 0xFFFC)
        (drop (parentOffset ex_long_pos - 500)
           (take (parentOffset ex_long_pos) (content (parent ex_long_pos))))"
    by (simp add: ex_long_pos_def)
  have vd: "view_dispatch ex_long_host = ex_dispatch" by (simp add: ex_long_host_def ex_host_def)
  have mx: "match x_rule ?S = None"
    by (simp add: x_rule_def InputRule_def ends_with_def)
  have md: "match dash_rule ?S = Some (RMatch [0x2D, 0x2D] [])"
    by (simp add: dash_rule_def InputRule_def ends_with_def)
  have hd: "handler dash_rule (state ex_view) (RMatch [0x2D, 0x2D] [])
              (2 - (int (length (matched (RMatch [0x2D :: jschar, 0x2D] [])))
                    - int (length [0x2D :: jschar]))) 2
            = Some ?T"
    by (simp add: dash_rule_def InputRule_def stringHandler_def)
  note rw = run_window [OF nc res ncode w]
  have no1: "\<forall>q \<in> set [x_rule]. match q ?S = None" using mx by simp
  from rw no1 have 1: "run ex_long_host ex_view 2 2 [0x2D] [x_rule] 0 =
          Inr (False, ex_view, map (\<lambda>j. Exec j ?S) [0..<length [x_rule]])"
    by blast
  have c: "[x_rule, dash_rule] = [x_rule] @ dash_rule # []
           \<and> (\<forall>q \<in> set [x_rule]. match q ?S = None)
           \<and> match dash_rule ?S = Some (RMatch [0x2D, 0x2D] [])
           \<and> handler dash_rule (state ex_view) (RMatch [0x2D, 0x2D] [])
              (2 - (int (length (matched (RMatch [0x2D :: jschar, 0x2D] [])))
                    - int (length [0x2D :: jschar]))) 2
            = Some ?T"
    using no1 md hd by simp
  from rw c have 2: "run ex_long_host ex_view 2 2 [0x2D] [x_rule, dash_rule] 0 =
          Inr (True,
               view_dispatch ex_long_host (setMeta 0 (revert_record ?T 2 2 [0x2D]) ?T) ex_view,
               map (\<lambda>j. Exec j ?S) [0..<length [x_rule]]
                 @ [Exec (length [x_rule]) ?S,
                    Call (length [x_rule]) (RMatch [0x2D, 0x2D] [])
                      (2 - (int (length (matched (RMatch [0x2D :: jschar, 0x2D] [])))
                            - int (length [0x2D :: jschar]))) 2,
                    Dispatch (setMeta 0 (revert_record ?T 2 2 [0x2D]) ?T)])"
    by blast
  show ?thesis
    using nc res ncode w [symmetric] mx md hd 1 2
    by (simp add: vd ex_rule_tr_def ex_record_def)
qed

text \<open>
  C7. The session state starts as none. On every update: when the update carries a
  revert record under the plugin's key, the state becomes that record; otherwise, when
  the update set the selection or changed the document, the state becomes none;
  otherwise the previous state is kept. The transaction that the runner dispatches carries
  the record under the plugin's key, so it installs the record; an edit without the
  metadata clears it.
\<close>

theorem plugin_apply_transition:
  "plugin_init = (None :: ('d, 's) undoable option)
   \<and> (getMeta this tr = Some r \<longrightarrow> plugin_apply this tr prev = Some r)
   \<and> (getMeta this tr = None \<and> (selectionSet tr \<or> docChanged tr) \<longrightarrow>
        plugin_apply this tr prev = None)
   \<and> (getMeta this tr = None \<and> \<not> selectionSet tr \<and> \<not> docChanged tr \<longrightarrow>
        plugin_apply this tr prev = prev)
   \<and> plugin_apply this (setMeta this r (tr :: ('d, 's) transaction)) prev = Some r"
  by (simp add: plugin_init_def plugin_apply_def getMeta_def setMeta_def)

text \<open>
  C7, witness: the transaction of the dash rule installs its record; an unrelated
  insertion clears it; a transaction that changes nothing keeps it.
\<close>

theorem plugin_apply_transition_witness:
  "getMeta 0 ex_rule_tr = Some ex_record
   \<and> plugin_apply 0 ex_rule_tr None = Some ex_record
   \<and> getMeta 0 ex_edit_tr = None \<and> docChanged ex_edit_tr
   \<and> plugin_apply 0 ex_edit_tr (Some ex_record) = None
   \<and> getMeta 0 ex_idle_tr = None \<and> \<not> selectionSet ex_idle_tr \<and> \<not> docChanged ex_idle_tr
   \<and> plugin_apply 0 ex_idle_tr (Some ex_record) = Some ex_record"
proof -
  have a: "getMeta 0 ex_rule_tr = Some ex_record"
    by (simp add: ex_rule_tr_def getMeta_def setMeta_def)
  have b: "getMeta 0 ex_edit_tr = None \<and> (selectionSet ex_edit_tr \<or> docChanged ex_edit_tr)"
    by (simp add: ex_edit_tr_def ex_insertText_def getMeta_def docChanged_def)
  have c: "getMeta 0 ex_idle_tr = None \<and> \<not> selectionSet ex_idle_tr \<and> \<not> docChanged ex_idle_tr"
    by (simp add: ex_idle_tr_def state_tr_def getMeta_def docChanged_def)
  from plugin_apply_transition [of 0 ex_rule_tr ex_record None] a
  have 1: "plugin_apply 0 ex_rule_tr None = Some ex_record" by blast
  from plugin_apply_transition [of 0 ex_edit_tr ex_record "Some ex_record"] b
  have 2: "plugin_apply 0 ex_edit_tr (Some ex_record) = None" by blast
  from plugin_apply_transition [of 0 ex_idle_tr ex_record "Some ex_record"] c
  have 3: "plugin_apply 0 ex_idle_tr (Some ex_record) = Some ex_record" by blast
  have d: "docChanged ex_edit_tr"
    by (simp add: ex_edit_tr_def ex_insertText_def docChanged_def)
  from a b c d 1 2 3 show ?thesis by simp
qed

section \<open>Properties of the revert command\<close>

lemma undo_loop_no_dispatch:
  "undo_loop h st False ps = Inr (\<exists>p \<in> set ps. isInputRules p \<and> getState p \<noteq> None, [])"
  by (induction ps) auto

lemma undo_loop_inactive:
  "\<forall>p \<in> set ps. \<not> (isInputRules p \<and> getState p \<noteq> None) \<Longrightarrow>
   undo_loop h st d ps = Inr (False, [])"
  by (induction ps) auto

lemma undo_loop_active:
  "find (\<lambda>p. isInputRules p \<and> getState p \<noteq> None) ps = Some p \<Longrightarrow> getState p = Some u \<Longrightarrow>
   undo_loop h st True ps =
     (case undo_transaction h st u of Inl e \<Rightarrow> Inl e | Inr tr \<Rightarrow> Inr (True, [tr]))"
  by (induction ps) (auto split: if_splits)

lemma find_active:
  "\<exists>p \<in> set ps. isInputRules p \<and> getState p \<noteq> None \<Longrightarrow>
   \<exists>p u. find (\<lambda>p. isInputRules p \<and> getState p \<noteq> None) ps = Some p \<and> getState p = Some u"
  by (induction ps) auto

text \<open>
  What the revert command returns. Without a dispatch callback, \<open>undoInputRule\<close> returns
  true exactly when some registered input-rules plugin holds a revert record, and it calls
  nothing. With a callback: when no record is active it returns false and dispatches
  nothing; when a record is active, the call builds the undo transaction for the record of
  the first such plugin, and it either raises what the host raised while building it or
  hands that one transaction to the callback and returns true.
\<close>

lemma undoInputRule_result:
  "undoInputRule h st False
     = Inr (\<exists>p \<in> set (plugins st). isInputRules p \<and> getState p \<noteq> None, [])
   \<and> ((\<forall>p \<in> set (plugins st). \<not> (isInputRules p \<and> getState p \<noteq> None)) \<longrightarrow>
        undoInputRule h st True = Inr (False, []))
   \<and> ((\<exists>p \<in> set (plugins st). isInputRules p \<and> getState p \<noteq> None) \<longrightarrow>
        (\<exists>p u. active_plugin st = Some p \<and> getState p = Some u
           \<and> undoInputRule h st True =
               (case undo_transaction h st u of
                  Inl e \<Rightarrow> Inl e
                | Inr tr \<Rightarrow> Inr (True, [tr]))))
   \<and> (\<forall>b trs. undoInputRule h st True = Inr (b, trs) \<longrightarrow>
        b = (\<exists>p \<in> set (plugins st). isInputRules p \<and> getState p \<noteq> None))"
proof -
  have nodispatch: "undoInputRule h st False
     = Inr (\<exists>p \<in> set (plugins st). isInputRules p \<and> getState p \<noteq> None, [])"
    by (simp add: undoInputRule_def undo_loop_no_dispatch)
  have inactive: "undoInputRule h st True = Inr (False, [])"
    if "\<forall>p \<in> set (plugins st). \<not> (isInputRules p \<and> getState p \<noteq> None)"
    using undo_loop_inactive [OF that] by (simp add: undoInputRule_def)
  have active: "\<exists>p u. active_plugin st = Some p \<and> getState p = Some u
           \<and> undoInputRule h st True =
               (case undo_transaction h st u of
                  Inl e \<Rightarrow> Inl e
                | Inr tr \<Rightarrow> Inr (True, [tr]))"
    if a: "\<exists>p \<in> set (plugins st). isInputRules p \<and> getState p \<noteq> None"
  proof -
    from find_active [OF a] obtain p u
      where f: "find (\<lambda>p. isInputRules p \<and> getState p \<noteq> None) (plugins st) = Some p"
        and u: "getState p = Some u" by blast
    from undo_loop_active [OF f u] f u show ?thesis
      by (auto simp: undoInputRule_def active_plugin_def)
  qed
  have same: "b = (\<exists>p \<in> set (plugins st). isInputRules p \<and> getState p \<noteq> None)"
    if r: "undoInputRule h st True = Inr (b, trs)" for b trs
  proof (cases "\<exists>p \<in> set (plugins st). isInputRules p \<and> getState p \<noteq> None")
    case True
    from active [OF True] obtain u where
      "undoInputRule h st True =
         (case undo_transaction h st u of Inl e \<Rightarrow> Inl e | Inr tr \<Rightarrow> Inr (True, [tr]))"
      by blast
    with r have "b = True" by (cases "undo_transaction h st u") simp_all
    with True show ?thesis by simp
  next
    case False
    then have "undoInputRule h st True = Inr (False, [])" using inactive by blast
    with r False show ?thesis by simp
  qed
  from nodispatch inactive active same show ?thesis by blast
qed


lemma ex_state_after_eq:
  "ex_state_after =
     \<lparr>state_doc = [0x61, 0x2014],
      plugins = [\<lparr>isInputRules = False, getState = None\<rparr>,
                 \<lparr>isInputRules = True, getState = Some ex_record\<rparr>]\<rparr>"
  by (simp add: ex_state_after_def ex_dispatch_def ex_rule_tr_def ex_view_def ex_insertText_def
        plugin_apply_def getMeta_def setMeta_def)

lemma ex_record_eq:
  "ex_record =
     \<lparr>rec_transform = \<lparr>steps = [(1, 2, [0x2014])], docs = [[0x61, 0x2D]], doc = [0x61, 0x2014]\<rparr>,
      rec_from = 2, rec_to = 2, rec_text = [0x2D]\<rparr>"
  by (simp add: ex_record_def revert_record_def ex_insertText_def ex_view_def
        transform.truncate_def transaction.defs transform.defs)

lemma ex_undo_transaction:
  "undo_transaction ex_host ex_state_after ex_record =
     Inr \<lparr>steps = [(1, 2, [0x2D]), (2, 2, [0x2D])], docs = [[0x61, 0x2014], [0x61, 0x2D]],
          doc = [0x61, 0x2D, 0x2D], selectionSet = False, meta = Map.empty\<rparr>"
  by (simp add: undo_transaction_def ex_state_after_eq ex_record_eq state_tr_def tr_step_def
        ex_host_def ex_resolve_def ex_schema_text_def Let_def numeral_2_eq_2)

text \<open>
  The example state before the dash rule (no record: false both ways) and after it, the
  dash having been typed (a record: true both ways, and one transaction dispatched).
\<close>

lemma undoInputRule_result_example:
  "undoInputRule ex_host (state ex_view) False = Inr (False, [])
   \<and> undoInputRule ex_host (state ex_view) True = Inr (False, [])
   \<and> active_plugin ex_state_after = Some \<lparr>isInputRules = True, getState = Some ex_record\<rparr>
   \<and> undoInputRule ex_host ex_state_after False = Inr (True, [])
   \<and> undoInputRule ex_host ex_state_after True
       = Inr (True,
              [\<lparr>steps = [(1, 2, [0x2D]), (2, 2, [0x2D])], docs = [[0x61, 0x2014], [0x61, 0x2D]],
                doc = [0x61, 0x2D, 0x2D], selectionSet = False, meta = Map.empty\<rparr>])"
proof -
  have none: "\<forall>p \<in> set (plugins (state ex_view)). \<not> (isInputRules p \<and> getState p \<noteq> None)"
    by (simp add: ex_view_def)
  have some: "\<exists>p \<in> set (plugins ex_state_after). isInputRules p \<and> getState p \<noteq> None"
    by (simp add: ex_state_after_eq)
  have act: "active_plugin ex_state_after = Some \<lparr>isInputRules = True, getState = Some ex_record\<rparr>"
    by (simp add: active_plugin_def ex_state_after_eq)
  from undoInputRule_result [of ex_host "state ex_view"] none
  have 1: "undoInputRule ex_host (state ex_view) False = Inr (False, [])"
    and 2: "undoInputRule ex_host (state ex_view) True = Inr (False, [])"
    by simp_all
  from undoInputRule_result [of ex_host ex_state_after] some
  have 3: "undoInputRule ex_host ex_state_after False = Inr (True, [])" by simp
  from undoInputRule_result [of ex_host ex_state_after] some
  obtain p u where "active_plugin ex_state_after = Some p" and "getState p = Some u"
    and r: "undoInputRule ex_host ex_state_after True =
         (case undo_transaction ex_host ex_state_after u of
            Inl e \<Rightarrow> Inl e | Inr tr \<Rightarrow> Inr (True, [tr]))"
    by blast
  with act have "u = ex_record" by simp
  with r have 4: "undoInputRule ex_host ex_state_after True
       = Inr (True,
              [\<lparr>steps = [(1, 2, [0x2D]), (2, 2, [0x2D])], docs = [[0x61, 0x2014], [0x61, 0x2D]],
                doc = [0x61, 0x2D, 0x2D], selectionSet = False, meta = Map.empty\<rparr>])"
    by (simp add: ex_undo_transaction)
  from 1 2 3 4 act show ?thesis by simp
qed

lemma replay_steps:
  "replay h d0 ss = Some (ds, e) \<Longrightarrow>
   length ds = length ss \<and> (ds @ [e]) ! 0 = d0
   \<and> (\<forall>j < length ss. step_apply h (ss ! j) ((ds @ [e]) ! j) = Some ((ds @ [e]) ! Suc j))"
proof (induction ss arbitrary: d0 ds)
  case Nil
  then show ?case by simp
next
  case (Cons s ss)
  from Cons.prems obtain d' ds' where a: "step_apply h s d0 = Some d'"
    and r: "replay h d' ss = Some (ds', e)" and ds: "ds = d0 # ds'"
    by (auto split: option.splits)
  from Cons.IH [OF r] have len: "length ds' = length ss" and z: "(ds' @ [e]) ! 0 = d'"
    and st: "\<forall>j < length ss. step_apply h (ss ! j) ((ds' @ [e]) ! j) = Some ((ds' @ [e]) ! Suc j)"
    by simp_all
  have "step_apply h ((s # ss) ! j) ((ds @ [e]) ! j) = Some ((ds @ [e]) ! Suc j)"
    if "j < length (s # ss)" for j
  proof (cases j)
    case 0
    with a z show ?thesis by (simp add: ds)
  next
    case (Suc k)
    with that st show ?thesis by (simp add: ds)
  qed
  with len show ?case by (simp add: ds)
qed

lemma invert_steps_result:
  assumes inv: "\<forall>s d d'. step_apply h s d = Some d' \<longrightarrow>
                  step_apply h (step_invert h s d) d' = Some d"
    and len: "length (docs T) = length (steps T)"
    and st: "\<forall>j < length (steps T).
               step_apply h (steps T ! j) ((docs T @ [e]) ! j) = Some ((docs T @ [e]) ! Suc j)"
  shows "n \<le> length (steps T) \<Longrightarrow> doc tr = (docs T @ [e]) ! n \<Longrightarrow>
         invert_steps h T n tr =
           Inr (tr\<lparr>steps := steps tr @ map (\<lambda>j. step_invert h (steps T ! j) (docs T ! j)) (rev [0..<n]),
                   docs := docs tr @ map (\<lambda>j. (docs T @ [e]) ! Suc j) (rev [0..<n]),
                   doc := (docs T @ [e]) ! 0\<rparr>)"
proof (induction n arbitrary: tr)
  case 0
  then show ?case by simp
next
  case (Suc j)
  from Suc.prems have j: "j < length (steps T)" by simp
  with len have jd: "j < length (docs T)" by simp
  then have dj: "(docs T @ [e]) ! j = docs T ! j" by (simp add: nth_append)
  from st [rule_format, OF j]
  have "step_apply h (steps T ! j) (docs T ! j) = Some ((docs T @ [e]) ! Suc j)"
    unfolding dj .
  with inv have undone: "step_apply h (step_invert h (steps T ! j) (docs T ! j)) ((docs T @ [e]) ! Suc j)
        = Some (docs T ! j)" by blast
  let ?tr' = "tr\<lparr>steps := steps tr @ [step_invert h (steps T ! j) (docs T ! j)],
                 docs := docs tr @ [doc tr], doc := docs T ! j\<rparr>"
  have step: "tr_step h (step_invert h (steps T ! j) (docs T ! j)) tr = Inr ?tr'"
    using undone Suc.prems(2) by (simp add: tr_step_def)
  have "invert_steps h T j ?tr' =
           Inr (?tr'\<lparr>steps := steps ?tr' @ map (\<lambda>j. step_invert h (steps T ! j) (docs T ! j)) (rev [0..<j]),
                   docs := docs ?tr' @ map (\<lambda>j. (docs T @ [e]) ! Suc j) (rev [0..<j]),
                   doc := (docs T @ [e]) ! 0\<rparr>)"
    using j dj by (intro Suc.IH) simp_all
  then show ?case using j jd step Suc.prems(2) by simp
qed

lemma map_nth_zip:
  "length ds = length ss \<Longrightarrow>
   map (\<lambda>j. f (ss ! j) (ds ! j)) [0..<length ss] = map (\<lambda>(s, d). f s d) (zip ss ds)"
  by (rule nth_equalityI) simp_all

lemma ex_host_invertible:
  "\<forall>s d d'. step_apply ex_host s d = Some d' \<longrightarrow>
     step_apply ex_host (step_invert ex_host s d) d' = Some d"
proof (intro allI impI)
  fix s :: ex_step and d d' :: jsstring
  assume a: "step_apply ex_host s d = Some d'"
  obtain f t x where s: "s = (f, t, x)" by (cases s) auto
  from a have ft: "f \<le> t" and tl: "t \<le> length d" and d': "d' = take f d @ x @ drop t d"
    by (auto simp: s ex_host_def split: if_splits)
  have "drop t d = drop (t - f) (drop f d)" using ft by simp
  then have "take (t - f) (drop f d) @ drop t d = drop f d"
    by (simp only: append_take_drop_id)
  then have "take f d @ take (t - f) (drop f d) @ drop t d = d" by simp
  moreover from ft tl have "min (length d) f = f" by simp
  moreover from ft tl have "f + length x \<le> f + (length x + (length d - t))" by simp
  ultimately show "step_apply ex_host (step_invert ex_host s d) d' = Some d"
    by (simp add: s d' ex_host_def)
qed

text \<open>
  The revert when the host builds the text node. Let the host's inversion undo a step:
  whenever a step applies to a document, its inverse taken against that document applies
  to the result and gives the document back. Let the state be the one right after a
  rule-triggered change: the first active plugin holds the record \<open>u\<close>, whose transform
  records the change from the pre-rule document \<open>d0\<close>, and the state's document is the
  transform's result. Let the host resolve \<open>from\<close> in \<open>d0\<close>, build the text node for the
  typed text with the marks found there, and apply the replacement of \<open>[from, to)\<close> by
  that node to \<open>d0\<close>, giving \<open>d1\<close>. Then \<open>undoInputRule\<close> with a callback returns true
  and dispatches one transaction: its steps are the inverses of the recorded steps in
  reverse order, each against the document before that step, followed by the replacement;
  the document before the replacement is \<open>d0\<close> again; and its final document is \<open>d1\<close>,
  the pre-rule document with the typed text inserted.
\<close>

lemma undoInputRule_restores:
  assumes inv: "\<forall>s d d'. step_apply h s d = Some d' \<longrightarrow>
                  step_apply h (step_invert h s d) d' = Some d"
    and act: "active_plugin st = Some p"
    and u: "getState p = Some u"
    and rec: "replay h d0 (steps (rec_transform u))
                = Some (docs (rec_transform u), doc (rec_transform u))"
    and now: "state_doc st = doc (rec_transform u)"
    and pos: "resolve h d0 (rec_from u) = Some pos"
    and node: "schema_text h (rec_text u) (marks pos) = Some node"
    and rep: "step_apply h (replace_step h (rec_from u) (rec_to u) node) d0 = Some d1"
  shows "\<exists>tr. undoInputRule h st True = Inr (True, [tr])
           \<and> steps tr = map (\<lambda>(s, d). step_invert h s d)
                           (rev (zip (steps (rec_transform u)) (docs (rec_transform u))))
                         @ [replace_step h (rec_from u) (rec_to u) node]
           \<and> length (docs tr) = length (steps tr)
           \<and> last (docs tr) = d0
           \<and> doc tr = d1"
proof -
  let ?T = "rec_transform u"
  let ?e = "doc ?T"
  let ?n = "length (steps ?T)"
  from replay_steps [OF rec] have len: "length (docs ?T) = ?n"
    and z: "(docs ?T @ [?e]) ! 0 = d0"
    and st: "\<forall>j < ?n. step_apply h (steps ?T ! j) ((docs ?T @ [?e]) ! j)
                        = Some ((docs ?T @ [?e]) ! Suc j)"
    by simp_all
  have start: "doc (state_tr st) = (docs ?T @ [?e]) ! ?n"
    using len now by (simp add: state_tr_def nth_append)
  let ?inv = "map (\<lambda>j. step_invert h (steps ?T ! j) (docs ?T ! j)) (rev [0..<?n])"
  let ?before = "map (\<lambda>j. (docs ?T @ [?e]) ! Suc j) (rev [0..<?n])"
  let ?tr1 = "(state_tr st)\<lparr>steps := steps (state_tr st) @ ?inv,
                docs := docs (state_tr st) @ ?before, doc := (docs ?T @ [?e]) ! 0\<rparr>"
  have loop: "invert_steps h ?T ?n (state_tr st) = Inr ?tr1"
    using invert_steps_result [OF inv len st _ start] by simp
  let ?rs = "replace_step h (rec_from u) (rec_to u) node"
  let ?tr2 = "?tr1\<lparr>steps := steps ?tr1 @ [?rs], docs := docs ?tr1 @ [doc ?tr1], doc := d1\<rparr>"
  have last: "tr_step h ?rs ?tr1 = Inr ?tr2"
    using rep z by (simp add: tr_step_def)
  have ut: "undo_transaction h st u = Inr ?tr2"
    using loop pos node z last by (simp add: undo_transaction_def Let_def)
  from act have f: "find (\<lambda>p. isInputRules p \<and> getState p \<noteq> None) (plugins st) = Some p"
    by (simp add: active_plugin_def)
  have "undo_loop h st True (plugins st) =
          (case undo_transaction h st u of Inl e \<Rightarrow> Inl e | Inr tr \<Rightarrow> Inr (True, [tr]))"
    by (rule undo_loop_active [OF f u])
  then have res: "undoInputRule h st True = Inr (True, [?tr2])"
    unfolding ut undoInputRule_def by simp
  have "?inv = rev (map (\<lambda>j. step_invert h (steps ?T ! j) (docs ?T ! j)) [0..<?n])"
    by (simp only: rev_map)
  also have "\<dots> = rev (map (\<lambda>(s, d). step_invert h s d) (zip (steps ?T) (docs ?T)))"
    by (simp only: map_nth_zip [OF len])
  also have "\<dots> = map (\<lambda>(s, d). step_invert h s d) (rev (zip (steps ?T) (docs ?T)))"
    by (simp only: rev_map)
  finally have inv_eq:
    "?inv = map (\<lambda>(s, d). step_invert h s d) (rev (zip (steps ?T) (docs ?T)))" .
  have "steps ?tr2 = map (\<lambda>(s, d). step_invert h s d) (rev (zip (steps ?T) (docs ?T))) @ [?rs]"
    using inv_eq by (simp add: state_tr_def)
  moreover have "length (docs ?tr2) = length (steps ?tr2)" by (simp add: state_tr_def)
  moreover have "last (docs ?tr2) = d0" using z by simp
  moreover have "doc ?tr2 = d1" by simp
  ultimately show ?thesis using res by blast
qed


text \<open>
  Typing a dash after \<open>"a-"\<close> fires the dash rule; the revert command on the state after
  it produces \<open>"a--"\<close>, passing through \<open>"a-"\<close>.
\<close>

lemma undoInputRule_restores_example:
  "run ex_host ex_view 2 2 [0x2D] [dash_rule] 0
     = Inr (True, ex_view\<lparr>state := ex_state_after\<rparr>,
            [Exec 0 [0x61, 0x2D, 0x2D], Call 0 (RMatch [0x2D, 0x2D] []) 1 2,
             Dispatch ex_rule_tr])
   \<and> active_plugin ex_state_after = Some \<lparr>isInputRules = True, getState = Some ex_record\<rparr>
   \<and> replay ex_host [0x61, 0x2D] (steps (rec_transform ex_record))
       = Some (docs (rec_transform ex_record), doc (rec_transform ex_record))
   \<and> state_doc ex_state_after = doc (rec_transform ex_record)
   \<and> resolve ex_host [0x61, 0x2D] (rec_from ex_record)
       = Some \<lparr>parent = \<lparr>code = False, content = [Chr 0x61, Chr 0x2D]\<rparr>,
               parentOffset = 2, marks = []\<rparr>
   \<and> schema_text ex_host (rec_text ex_record) [] = Some (TextNode [0x2D] [])
   \<and> step_apply ex_host
         (replace_step ex_host (rec_from ex_record) (rec_to ex_record) (TextNode [0x2D] []))
         [0x61, 0x2D]
       = Some [0x61, 0x2D, 0x2D]
   \<and> undoInputRule ex_host ex_state_after True
       = Inr (True,
              [\<lparr>steps = [(1, 2, [0x2D]), (2, 2, [0x2D])], docs = [[0x61, 0x2014], [0x61, 0x2D]],
                doc = [0x61, 0x2D, 0x2D], selectionSet = False, meta = Map.empty\<rparr>])"
proof -
  have run: "run ex_host ex_view 2 2 [0x2D] [dash_rule] 0
     = Inr (True, ex_view\<lparr>state := ex_state_after\<rparr>,
            [Exec 0 [0x61, 0x2D, 0x2D], Call 0 (RMatch [0x2D, 0x2D] []) 1 2,
             Dispatch ex_rule_tr])"
  proof -
    have vd: "view_dispatch ex_host = ex_dispatch" by (simp add: ex_host_def)
    show ?thesis
      by (simp add: ex_run ex_attempts attempt_events_def ex_matches ex_rule_tr_def ex_record_def
            revert_record_def ex_state_after_def vd ex_dispatch_def Let_def)
  qed
  have act: "active_plugin ex_state_after = Some \<lparr>isInputRules = True, getState = Some ex_record\<rparr>"
    by (simp add: active_plugin_def ex_state_after_eq)
  have u: "getState \<lparr>isInputRules = True, getState = Some ex_record\<rparr> = Some ex_record"
    by simp
  have rec: "replay ex_host [0x61, 0x2D] (steps (rec_transform ex_record))
       = Some (docs (rec_transform ex_record), doc (rec_transform ex_record))"
    by (simp add: ex_record_eq ex_host_def)
  have now: "state_doc ex_state_after = doc (rec_transform ex_record)"
    by (simp add: ex_state_after_eq ex_record_eq)
  have pos: "resolve ex_host [0x61, 0x2D] (rec_from ex_record)
       = Some \<lparr>parent = \<lparr>code = False, content = [Chr 0x61, Chr 0x2D]\<rparr>,
               parentOffset = 2, marks = []\<rparr>"
    by (simp add: ex_record_eq ex_host_def ex_resolve_def)
  have node: "schema_text ex_host (rec_text ex_record)
                (marks \<lparr>parent = \<lparr>code = False, content = [Chr 0x61, Chr 0x2D]\<rparr>,
                        parentOffset = 2, marks = ([]::unit list)\<rparr>)
              = Some (TextNode [0x2D] [])"
    by (simp add: ex_record_eq ex_host_def ex_schema_text_def)
  have rep: "step_apply ex_host
         (replace_step ex_host (rec_from ex_record) (rec_to ex_record) (TextNode [0x2D] []))
         [0x61, 0x2D]
       = Some [0x61, 0x2D, 0x2D]"
    by (simp add: ex_record_eq ex_host_def numeral_2_eq_2)
  from undoInputRule_restores [OF ex_host_invertible act u rec now pos node rep]
  obtain tr where "undoInputRule ex_host ex_state_after True = Inr (True, [tr])"
    and "doc tr = [0x61, 0x2D, 0x2D]" by blast
  moreover have "undoInputRule ex_host ex_state_after True
       = Inr (True,
              [\<lparr>steps = [(1, 2, [0x2D]), (2, 2, [0x2D])], docs = [[0x61, 0x2014], [0x61, 0x2D]],
                doc = [0x61, 0x2D, 0x2D], selectionSet = False, meta = Map.empty\<rparr>])"
    using undo_loop_active [of "plugins ex_state_after" _ ex_record ex_host ex_state_after]
    by (simp add: undoInputRule_def ex_state_after_eq ex_undo_transaction [unfolded ex_state_after_eq])
  ultimately show ?thesis using run act rec now pos node rep by simp
qed

section \<open>The revert command after a composition\<close>

lemma ex_composed_record_eq:
  "ex_composed_record =
     \<lparr>rec_transform = \<lparr>steps = [(1, 3, [0x2014])], docs = [[0x61, 0x2D, 0x2D]],
                        doc = [0x61, 0x2014]\<rparr>,
      rec_from = 3, rec_to = 3, rec_text = []\<rparr>"
  by (simp add: ex_composed_record_def revert_record_def ex_insertText_def ex_view_composed_def
        transform.truncate_def transaction.defs transform.defs)

lemma ex_state_composed_eq:
  "ex_state_composed =
     \<lparr>state_doc = [0x61, 0x2014],
      plugins = [\<lparr>isInputRules = False, getState = None\<rparr>,
                 \<lparr>isInputRules = True, getState = Some ex_composed_record\<rparr>]\<rparr>"
  by (simp add: ex_state_composed_def ex_dispatch_def ex_composed_tr_def ex_view_composed_def
        ex_insertText_def plugin_apply_def getMeta_def setMeta_def)

lemma ex_composed_run:
  "run ex_host ex_view_composed 3 3 [] [dash_rule] 0
     = Inr (True, ex_view_composed\<lparr>state := ex_state_composed\<rparr>,
            [Exec 0 [0x61, 0x2D, 0x2D], Call 0 (RMatch [0x2D, 0x2D] []) 1 3,
             Dispatch ex_composed_tr])"
proof -
  have nc: "\<not> composing ex_view_composed" by (simp add: ex_view_composed_def)
  have pos: "resolve ex_host (state_doc (state ex_view_composed)) 3
     = Some \<lparr>parent = \<lparr>code = False, content = [Chr 0x61, Chr 0x2D, Chr 0x2D]\<rparr>,
             parentOffset = 3, marks = []\<rparr>"
    by (simp add: ex_host_def ex_resolve_def ex_view_composed_def)
  have vd: "view_dispatch ex_host = ex_dispatch" by (simp add: ex_host_def)
  have run: "run ex_host ex_view_composed 3 3 [] [dash_rule] 0
     = Inr (try_rules ex_host ex_view_composed 3 3 [] [0x61, 0x2D, 0x2D] 0 0 [dash_rule])"
    unfolding run_guards_pass [OF nc pos, simplified]
    by (simp add: textBetween_def MAX_MATCH_def numeral_3_eq_3)
  have m: "match dash_rule [0x61, 0x2D, 0x2D] = Some (RMatch [0x2D, 0x2D] [])"
    by (simp add: dash_rule_def InputRule_def ends_with_def)
  have hd: "handler dash_rule st (RMatch [0x2D, 0x2D] []) 1 3
              = Some (ex_insertText st [0x2014] 1 3)" for st
    by (simp add: dash_rule_def InputRule_def stringHandler_def)
  show ?thesis
    unfolding run
    by (simp add: attempt_def attempt_events_def m hd vd ex_composed_tr_def
          ex_composed_record_def revert_record_def ex_state_composed_def ex_dispatch_def
          Let_def)
qed

lemma ex_composed_inverted:
  "invert_steps ex_host (rec_transform ex_composed_record)
     (length (steps (rec_transform ex_composed_record))) (state_tr ex_state_composed)
   = Inr \<lparr>steps = [(1, 2, [0x2D, 0x2D])], docs = [[0x61, 0x2014]], doc = [0x61, 0x2D, 0x2D],
          selectionSet = False, meta = Map.empty\<rparr>"
  by (simp add: ex_composed_record_eq ex_state_composed_eq state_tr_def tr_step_def ex_host_def
        numeral_2_eq_2 numeral_3_eq_3)

lemma ex_composed_undo_transaction:
  "undo_transaction ex_host ex_state_composed ex_composed_record = Inl RangeError"
proof -
  have r: "resolve ex_host [0x61, 0x2D, 0x2D] 3
     = Some \<lparr>parent = \<lparr>code = False, content = [Chr 0x61, Chr 0x2D, Chr 0x2D]\<rparr>,
             parentOffset = 3, marks = []\<rparr>"
    by (simp add: ex_host_def ex_resolve_def)
  have t: "schema_text ex_host [] [] = None" by (simp add: ex_host_def ex_schema_text_def)
  have f: "rec_from ex_composed_record = 3" "rec_text ex_composed_record = []"
    by (simp_all add: ex_composed_record_eq)
  show ?thesis
    unfolding undo_transaction_def Let_def ex_composed_inverted
    by (simp add: r t f)
qed

text \<open>
  C8, failing input. The state is the one the runner leaves on the composition-end path
  (line 88 calls it with the empty text): the dash rule has turned the document
  \<open>"a--"\<close> into \<open>"a"\<close> and the em dash, and the input-rules plugin holds the record with
  \<open>from = to = 3\<close> and the empty text. Without a callback \<open>undoInputRule\<close> returns true.
  With a callback, line 131 asks the schema for a text node with the empty text, which
  the host refuses, and the call raises instead of returning true: the two calls do not
  give the same value.
\<close>

theorem undoInputRule_callback_differs:
  "run ex_host ex_view_composed 3 3 [] [dash_rule] 0
     = Inr (True, ex_view_composed\<lparr>state := ex_state_composed\<rparr>,
            [Exec 0 [0x61, 0x2D, 0x2D], Call 0 (RMatch [0x2D, 0x2D] []) 1 3,
             Dispatch ex_composed_tr])
   \<and> active_plugin ex_state_composed
       = Some \<lparr>isInputRules = True, getState = Some ex_composed_record\<rparr>
   \<and> rec_text ex_composed_record = []
   \<and> undoInputRule ex_host ex_state_composed False = Inr (True, [])
   \<and> undoInputRule ex_host ex_state_composed True = Inl RangeError"
proof -
  have "active_plugin ex_state_composed
       = Some \<lparr>isInputRules = True, getState = Some ex_composed_record\<rparr>
   \<and> undoInputRule ex_host ex_state_composed False = Inr (True, [])
   \<and> undoInputRule ex_host ex_state_composed True = Inl RangeError"
    by (simp add: active_plugin_def undoInputRule_def ex_state_composed_eq
          ex_composed_undo_transaction [unfolded ex_state_composed_eq])
  moreover have "rec_text ex_composed_record = []" by (simp add: ex_composed_record_eq)
  ultimately show ?thesis using ex_composed_run by simp
qed

text \<open>
  C9, failing input. The runner, called on the composition-end path with the empty text
  on the document \<open>"a--"\<close>, applies the dash rule and dispatches its transaction with the
  record \<open>{from = 3, to = 3, text = ""}\<close>; the document becomes \<open>"a"\<close> and the em
  dash. On the state after it, the loop of line 129 inverts the recorded step and reaches the
  pre-rule document \<open>"a--"\<close> inside the transaction, but line 131 then asks for a text
  node with the empty text, the host refuses, and building the transaction raises:
  nothing is dispatched and the document is not restored.
\<close>

theorem undoInputRule_empty_text_raises:
  "run ex_host ex_view_composed 3 3 [] [dash_rule] 0
     = Inr (True, ex_view_composed\<lparr>state := ex_state_composed\<rparr>,
            [Exec 0 [0x61, 0x2D, 0x2D], Call 0 (RMatch [0x2D, 0x2D] []) 1 3,
             Dispatch ex_composed_tr])
   \<and> getMeta 0 ex_composed_tr = Some ex_composed_record
   \<and> rec_from ex_composed_record = 3 \<and> rec_to ex_composed_record = 3
   \<and> rec_text ex_composed_record = []
   \<and> state_doc (state ex_view_composed) = [0x61, 0x2D, 0x2D]
   \<and> state_doc ex_state_composed = [0x61, 0x2014]
   \<and> invert_steps ex_host (rec_transform ex_composed_record)
         (length (steps (rec_transform ex_composed_record))) (state_tr ex_state_composed)
       = Inr \<lparr>steps = [(1, 2, [0x2D, 0x2D])], docs = [[0x61, 0x2014]],
              doc = [0x61, 0x2D, 0x2D], selectionSet = False, meta = Map.empty\<rparr>
   \<and> schema_text ex_host (rec_text ex_composed_record) [] = None
   \<and> undo_transaction ex_host ex_state_composed ex_composed_record = Inl RangeError"
proof -
  have "getMeta 0 ex_composed_tr = Some ex_composed_record"
    by (simp add: ex_composed_tr_def getMeta_def setMeta_def)
  moreover have "schema_text ex_host (rec_text ex_composed_record) [] = None"
    by (simp add: ex_composed_record_eq ex_host_def ex_schema_text_def)
  moreover have "state_doc (state ex_view_composed) = [0x61, 0x2D, 0x2D]"
    by (simp add: ex_view_composed_def)
  moreover have "state_doc ex_state_composed = [0x61, 0x2014]"
    by (simp add: ex_state_composed_eq)
  moreover have "rec_from ex_composed_record = 3 \<and> rec_to ex_composed_record = 3
                 \<and> rec_text ex_composed_record = []"
    by (simp add: ex_composed_record_eq)
  ultimately show ?thesis
    using ex_composed_run ex_composed_inverted ex_composed_undo_transaction by simp
qed

end
